theory Spec2Isabelle
  imports Main
begin

section \<open>Bytes and text\<close>

text \<open>
  Go's \<^verbatim>\<open>string\<close> and \<^verbatim>\<open>[]byte\<close> are sequences of bytes. Both are modelled by
  \<^typ>\<open>string\<close>, a list of 8-bit characters. A nil byte slice and an empty one are both
  the empty list: the code only measures and parses them, which does not tell them apart.
\<close>

definition byte :: "char \<Rightarrow> nat" where
  "byte c = of_char c"

definition backslash :: char where
  "backslash = CHR 0x5C"

definition dquote :: char where
  "dquote = CHR 0x22"

definition in_range :: "char \<Rightarrow> nat \<Rightarrow> nat \<Rightarrow> bool" where
  "in_range c lo hi \<longleftrightarrow> lo \<le> byte c \<and> byte c \<le> hi"

definition replacement_char :: string where
  "replacement_char = [CHR 0xEF, CHR 0xBF, CHR 0xBD]"

subsection \<open>UTF-8 (package unicode/utf8 of the Go library)\<close>

text \<open>
  The well-formed multi-byte sequences, by the table of \<^verbatim>\<open>utf8.DecodeRune\<close>: shortest form
  only, no surrogates, nothing above U+10FFFF. \<open>seq2 s\<close>, \<open>seq3 s\<close> and \<open>seq4 s\<close> say that \<open>s\<close>
  starts with a well-formed sequence of two, three and four bytes.
\<close>

definition seq2 :: "string \<Rightarrow> bool" where
  "seq2 s =
     (case s of
        c # c1 # _ \<Rightarrow> in_range c 0xC2 0xDF \<and> in_range c1 0x80 0xBF
      | _ \<Rightarrow> False)"

definition seq3 :: "string \<Rightarrow> bool" where
  "seq3 s =
     (case s of
        c # c1 # c2 # _ \<Rightarrow>
          in_range c 0xE0 0xEF
          \<and> in_range c1 (if byte c = 0xE0 then 0xA0 else 0x80) (if byte c = 0xED then 0x9F else 0xBF)
          \<and> in_range c2 0x80 0xBF
      | _ \<Rightarrow> False)"

definition seq4 :: "string \<Rightarrow> bool" where
  "seq4 s =
     (case s of
        c # c1 # c2 # c3 # _ \<Rightarrow>
          in_range c 0xF0 0xF4
          \<and> in_range c1 (if byte c = 0xF0 then 0x90 else 0x80) (if byte c = 0xF4 then 0x8F else 0xBF)
          \<and> in_range c2 0x80 0xBF \<and> in_range c3 0x80 0xBF
      | _ \<Rightarrow> False)"

text \<open>
  \<open>utf8_seq_len s\<close> is the length of the well-formed multi-byte sequence at the head of
  \<open>s\<close>, and 0 when there is none, where Go returns \<^verbatim>\<open>(RuneError, 1)\<close>. It is only consulted
  on a first byte of 0x80 or more.
\<close>

definition utf8_seq_len :: "string \<Rightarrow> nat" where
  "utf8_seq_len s = (if seq2 s then 2 else if seq3 s then 3 else if seq4 s then 4 else 0)"

text \<open>\<^verbatim>\<open>utf8.ValidString\<close>.\<close>

fun valid_utf8 :: "string \<Rightarrow> bool" where
  "valid_utf8 [] = True"
| "valid_utf8 (c # cs) =
     (if byte c < 0x80 then valid_utf8 cs
      else (let n = utf8_seq_len (c # cs) in n \<noteq> 0 \<and> valid_utf8 (drop (n - 1) cs)))"

text \<open>\<^verbatim>\<open>utf8.EncodeRune\<close>: a surrogate or an out-of-range code point becomes U+FFFD.\<close>

definition encode_rune :: "nat \<Rightarrow> string" where
  "encode_rune r =
     (if r < 0x80 then [char_of r]
      else if r < 0x800 then [char_of (0xC0 + r div 64), char_of (0x80 + r mod 64)]
      else if (0xD800 \<le> r \<and> r < 0xE000) \<or> 0x10FFFF < r then replacement_char
      else if r < 0x10000 then
        [char_of (0xE0 + r div 4096), char_of (0x80 + (r div 64) mod 64), char_of (0x80 + r mod 64)]
      else
        [char_of (0xF0 + r div 262144), char_of (0x80 + (r div 4096) mod 64),
         char_of (0x80 + (r div 64) mod 64), char_of (0x80 + r mod 64)])"

section \<open>JSON text (package encoding/json of the Go library)\<close>

text \<open>
  The repository calls \<^verbatim>\<open>json.Marshal\<close> on its request envelope and \<^verbatim>\<open>json.Unmarshal\<close>
  on the response body and on the raw result. Both are library code; they are modelled
  here on bytes, following the library's documented behaviour: the grammar of RFC 8259
  that its scanner accepts, the string escapes of its encoder with HTML escaping on (what
  \<^verbatim>\<open>Marshal\<close> uses), and the coercion of ill-formed UTF-8 to U+FFFD. The library's limit on
  the nesting depth of a document is not modelled.
\<close>

datatype json =
    JNull
  | JBool bool
  | JNumber string
  | JString string
  | JArray "json list"
  | JObject "(string \<times> json) list"

subsection \<open>Scanning\<close>

definition is_space :: "char \<Rightarrow> bool" where
  "is_space c \<longleftrightarrow> c = CHR 0x20 \<or> c = CHR 0x09 \<or> c = CHR 0x0A \<or> c = CHR 0x0D"

definition skip_ws :: "string \<Rightarrow> string" where
  "skip_ws s = dropWhile is_space s"

definition is_digit :: "char \<Rightarrow> bool" where
  "is_digit c \<longleftrightarrow> in_range c 0x30 0x39"

definition hex_val :: "char \<Rightarrow> nat option" where
  "hex_val c =
     (if in_range c 0x30 0x39 then Some (byte c - 0x30)
      else if in_range c 0x61 0x66 then Some (byte c - 0x61 + 10)
      else if in_range c 0x41 0x46 then Some (byte c - 0x41 + 10)
      else None)"

text \<open>The four hexadecimal digits that follow \<^verbatim>\<open>\u\<close> (the library's \<^verbatim>\<open>getu4\<close>).\<close>

definition getu4 :: "string \<Rightarrow> nat option" where
  "getu4 s =
     (case s of
        a # b # c # d # _ \<Rightarrow>
          (case (hex_val a, hex_val b, hex_val c, hex_val d) of
             (Some x, Some y, Some z, Some w) \<Rightarrow> Some (x * 4096 + y * 256 + z * 16 + w)
           | _ \<Rightarrow> None)
      | _ \<Rightarrow> None)"

definition unescape_char :: "char \<Rightarrow> char option" where
  "unescape_char e =
     (if e = dquote \<or> e = backslash \<or> e = CHR ''/'' then Some e
      else if e = CHR ''b'' then Some (CHR 0x08)
      else if e = CHR ''f'' then Some (CHR 0x0C)
      else if e = CHR ''n'' then Some (CHR 0x0A)
      else if e = CHR ''r'' then Some (CHR 0x0D)
      else if e = CHR ''t'' then Some (CHR 0x09)
      else None)"

definition prepend :: "string \<Rightarrow> (string \<times> string) option \<Rightarrow> (string \<times> string) option" where
  "prepend pre r = (case r of None \<Rightarrow> None | Some (s, rest) \<Rightarrow> Some (pre @ s, rest))"

text \<open>
  \<open>scan_string s\<close> reads a string literal whose opening quote has been consumed: it returns
  the decoded bytes and the input after the closing quote, or \<open>None\<close> on a syntax error
  (a raw control character, a bad escape, no closing quote). It is the scanner's check and
  \<^verbatim>\<open>unquote\<close> in one pass.
\<close>

fun scan_string :: "string \<Rightarrow> (string \<times> string) option" where
  "scan_string [] = None"
| "scan_string (c # cs) =
     (if c = dquote then Some ([], cs)
      else if c = backslash then
        (case cs of
           [] \<Rightarrow> None
         | e # es \<Rightarrow>
             if e = CHR ''u'' then
               (case getu4 es of
                  None \<Rightarrow> None
                | Some rr \<Rightarrow>
                    if 0xD800 \<le> rr \<and> rr < 0xE000 then
                      (case (if take 2 (drop 4 es) = [backslash, CHR ''u'']
                             then getu4 (drop 6 es) else None) of
                         Some rr1 \<Rightarrow>
                           if rr < 0xDC00 \<and> 0xDC00 \<le> rr1 \<and> rr1 < 0xE000 then
                             prepend (encode_rune (0x10000 + (rr - 0xD800) * 1024 + (rr1 - 0xDC00)))
                               (scan_string (drop 10 es))
                           else prepend replacement_char (scan_string (drop 4 es))
                       | None \<Rightarrow> prepend replacement_char (scan_string (drop 4 es)))
                    else prepend (encode_rune rr) (scan_string (drop 4 es)))
             else
               (case unescape_char e of
                  None \<Rightarrow> None
                | Some b \<Rightarrow> prepend [b] (scan_string es)))
      else if byte c < 0x20 then None
      else if byte c < 0x80 then prepend [c] (scan_string cs)
      else
        (let n = utf8_seq_len (c # cs) in
         if n = 0 then prepend replacement_char (scan_string cs)
         else prepend (take n (c # cs)) (scan_string (drop (n - 1) cs))))"

definition scan_digits :: "string \<Rightarrow> (string \<times> string) option" where
  "scan_digits s =
     (if takeWhile is_digit s = [] then None
      else Some (takeWhile is_digit s, dropWhile is_digit s))"

definition int_part :: "string \<Rightarrow> (string \<times> string) option" where
  "int_part s =
     (case s of
        [] \<Rightarrow> None
      | c # cs \<Rightarrow> if c = CHR ''0'' then Some ([c], cs) else scan_digits s)"

definition frac_part :: "string \<Rightarrow> (string \<times> string) option" where
  "frac_part s =
     (case s of
        [] \<Rightarrow> Some ([], s)
      | c # cs \<Rightarrow> if c = CHR ''.'' then prepend [c] (scan_digits cs) else Some ([], s))"

definition exp_part :: "string \<Rightarrow> (string \<times> string) option" where
  "exp_part s =
     (case s of
        [] \<Rightarrow> Some ([], s)
      | c # cs \<Rightarrow>
          if c = CHR ''e'' \<or> c = CHR ''E'' then
            (case cs of
               [] \<Rightarrow> None
             | d # ds \<Rightarrow>
                 if d = CHR ''+'' \<or> d = CHR ''-'' then prepend [c, d] (scan_digits ds)
                 else prepend [c] (scan_digits cs))
          else Some ([], s))"

text \<open>
  A number literal: an optional minus, an integer part without a leading zero, an optional
  fraction and an optional exponent. The literal is returned as written.
\<close>

definition scan_number :: "string \<Rightarrow> (string \<times> string) option" where
  "scan_number s =
     (let sign = (case s of c # _ \<Rightarrow> if c = CHR ''-'' then [c] else [] | [] \<Rightarrow> []) in
      case int_part (drop (length sign) s) of
        None \<Rightarrow> None
      | Some (ip, s2) \<Rightarrow>
          (case frac_part s2 of
             None \<Rightarrow> None
           | Some (fp, s3) \<Rightarrow>
               (case exp_part s3 of
                  None \<Rightarrow> None
                | Some (ep, s4) \<Rightarrow> Some (sign @ ip @ fp @ ep, s4))))"

definition scan_literal :: "string \<Rightarrow> (json \<times> string) option" where
  "scan_literal s =
     (if take 4 s = ''true'' then Some (JBool True, drop 4 s)
      else if take 5 s = ''false'' then Some (JBool False, drop 5 s)
      else if take 4 s = ''null'' then Some (JNull, drop 4 s)
      else None)"

subsection \<open>Parsing a value\<close>

text \<open>
  A recursive-descent reading of one JSON value at the head of the input, which starts at
  the value's first byte; the result is the value and the input that follows it. The first
  argument bounds the number of nested calls; \<open>json_parse\<close> below starts it above the
  length of the input, and each call consumes at least one byte, so the bound is never
  reached (lemma \<open>json_parse_fuel\<close>). The members of an object
  are returned with the exact text of each member's value, which is what a field of type
  \<^verbatim>\<open>json.RawMessage\<close> receives.
\<close>

fun parse_value :: "nat \<Rightarrow> string \<Rightarrow> (json \<times> string) option"
  and parse_elems :: "nat \<Rightarrow> string \<Rightarrow> (json list \<times> string) option"
  and parse_members :: "nat \<Rightarrow> string \<Rightarrow> ((string \<times> json \<times> string) list \<times> string) option"
where
  "parse_value 0 s = None"
| "parse_value (Suc n) s =
     (case s of
        [] \<Rightarrow> None
      | c # cs \<Rightarrow>
          if c = CHR ''{'' then
            (if take 1 (skip_ws cs) = ''}'' then Some (JObject [], drop 1 (skip_ws cs))
             else (case parse_members n (skip_ws cs) of
                     None \<Rightarrow> None
                   | Some (ms, rest) \<Rightarrow> Some (JObject (map (\<lambda>(k, v, raw). (k, v)) ms), rest)))
          else if c = CHR ''['' then
            (if take 1 (skip_ws cs) = '']'' then Some (JArray [], drop 1 (skip_ws cs))
             else (case parse_elems n (skip_ws cs) of
                     None \<Rightarrow> None
                   | Some (vs, rest) \<Rightarrow> Some (JArray vs, rest)))
          else if c = dquote then
            (case scan_string cs of
               None \<Rightarrow> None
             | Some (str, rest) \<Rightarrow> Some (JString str, rest))
          else if c = CHR ''-'' \<or> is_digit c then
            (case scan_number s of
               None \<Rightarrow> None
             | Some (lit, rest) \<Rightarrow> Some (JNumber lit, rest))
          else scan_literal s)"
| "parse_elems 0 s = None"
| "parse_elems (Suc n) s =
     (case parse_value n s of
        None \<Rightarrow> None
      | Some (v, rest) \<Rightarrow>
          (case skip_ws rest of
             [] \<Rightarrow> None
           | c # rest' \<Rightarrow>
               if c = CHR '','' then
                 (case parse_elems n (skip_ws rest') of
                    None \<Rightarrow> None
                  | Some (vs, rest'') \<Rightarrow> Some (v # vs, rest''))
               else if c = CHR '']'' then Some ([v], rest')
               else None))"
| "parse_members 0 s = None"
| "parse_members (Suc n) s =
     (case s of
        [] \<Rightarrow> None
      | q # cs \<Rightarrow>
          if q \<noteq> dquote then None
          else
            (case scan_string cs of
               None \<Rightarrow> None
             | Some (k, r) \<Rightarrow>
                 (case skip_ws r of
                    [] \<Rightarrow> None
                  | colon # r1 \<Rightarrow>
                      if colon \<noteq> CHR '':'' then None
                      else
                        (case parse_value n (skip_ws r1) of
                           None \<Rightarrow> None
                         | Some (v, r2) \<Rightarrow>
                             (let raw = take (length (skip_ws r1) - length r2) (skip_ws r1) in
                              case skip_ws r2 of
                                [] \<Rightarrow> None
                              | c # r3 \<Rightarrow>
                                  if c = CHR '','' then
                                    (case parse_members n (skip_ws r3) of
                                       None \<Rightarrow> None
                                     | Some (ms, r4) \<Rightarrow> Some ((k, v, raw) # ms, r4))
                                  else if c = CHR ''}'' then Some ([(k, v, raw)], r3)
                                  else None)))))"

text \<open>
  The whole input must be one value between optional white space (the library's
  \<^verbatim>\<open>checkValid\<close>); \<open>None\<close> is its \<^verbatim>\<open>SyntaxError\<close>.
\<close>

definition json_parse :: "string \<Rightarrow> json option" where
  "json_parse data =
     (case parse_value (Suc (length data)) (skip_ws data) of
        None \<Rightarrow> None
      | Some (v, rest) \<Rightarrow> if skip_ws rest = [] then Some v else None)"

text \<open>The members of a document that is an object, each with the text of its value.\<close>

definition top_members :: "string \<Rightarrow> (string \<times> json \<times> string) list" where
  "top_members data =
     (case skip_ws data of
        [] \<Rightarrow> []
      | c # cs \<Rightarrow>
          if c = CHR ''{'' then
            (case parse_members (length data) (skip_ws cs) of
               None \<Rightarrow> []
             | Some (ms, _) \<Rightarrow> ms)
          else [])"

subsection \<open>Integers in decimal (package strconv)\<close>

definition digit_char :: "nat \<Rightarrow> char" where
  "digit_char d = ''0123456789'' ! d"

fun digits :: "nat \<Rightarrow> string" where
  "digits n = (if n < 10 then [digit_char n] else digits (n div 10) @ [digit_char (n mod 10)])"

text \<open>\<^verbatim>\<open>strconv.AppendInt\<close> in base 10, which the encoder uses for a Go \<^verbatim>\<open>int\<close>.\<close>

definition itoa :: "int \<Rightarrow> string" where
  "itoa i = (if i < 0 then CHR ''-'' # digits (nat (- i)) else digits (nat i))"

definition digits_value :: "string \<Rightarrow> nat" where
  "digits_value ds = foldl (\<lambda>a c. 10 * a + (byte c - 0x30)) 0 ds"

text \<open>
  \<^verbatim>\<open>strconv.ParseInt(s, 10, 64)\<close> on a number literal: the field of type \<^verbatim>\<open>int\<close> takes the
  literal only if it is an integer in the range of 64 bits (a 64-bit platform is assumed).
\<close>

definition atoi :: "string \<Rightarrow> int option" where
  "atoi s =
     (let neg = (take 1 s = ''-'');
          ds = (if neg then drop 1 s else s);
          v = (if neg then - int (digits_value ds) else int (digits_value ds))
      in if ds \<noteq> [] \<and> list_all is_digit ds \<and> - (2 ^ 63) \<le> v \<and> v < 2 ^ 63 then Some v else None)"

subsection \<open>Encoding\<close>

definition hex_digit :: "nat \<Rightarrow> char" where
  "hex_digit d = ''0123456789abcdef'' ! d"

text \<open>The bytes below 0x80 that the encoder copies unescaped when HTML escaping is on.\<close>

definition html_safe :: "char \<Rightarrow> bool" where
  "html_safe c \<longleftrightarrow>
     0x20 \<le> byte c \<and> byte c < 0x80 \<and> c \<noteq> dquote \<and> c \<noteq> backslash
     \<and> c \<noteq> CHR ''&'' \<and> c \<noteq> CHR ''<'' \<and> c \<noteq> CHR ''>''"

definition escape_byte :: "char \<Rightarrow> string" where
  "escape_byte c =
     (if c = backslash \<or> c = dquote then [backslash, c]
      else if c = CHR 0x08 then [backslash, CHR ''b'']
      else if c = CHR 0x0C then [backslash, CHR ''f'']
      else if c = CHR 0x0A then [backslash, CHR ''n'']
      else if c = CHR 0x0D then [backslash, CHR ''r'']
      else if c = CHR 0x09 then [backslash, CHR ''t'']
      else [backslash, CHR ''u'', CHR ''0'', CHR ''0'', hex_digit (byte c div 16), hex_digit (byte c mod 16)])"

text \<open>
  The body of a string literal as the encoder's \<^verbatim>\<open>appendString\<close> writes it: a byte that is
  not the start of a well-formed UTF-8 sequence is written as the escape of U+FFFD, and U+2028 and
  U+2029 are escaped.
\<close>

fun appendString :: "string \<Rightarrow> string" where
  "appendString [] = []"
| "appendString (c # cs) =
     (if byte c < 0x80 then
        (if html_safe c then c # appendString cs else escape_byte c @ appendString cs)
      else
        (let n = utf8_seq_len (c # cs) in
         if n = 0 then (backslash # ''ufffd'') @ appendString cs
         else if take n (c # cs) = [CHR 0xE2, CHR 0x80, CHR 0xA8] then
           (backslash # ''u2028'') @ appendString (drop (n - 1) cs)
         else if take n (c # cs) = [CHR 0xE2, CHR 0x80, CHR 0xA9] then
           (backslash # ''u2029'') @ appendString (drop (n - 1) cs)
         else take n (c # cs) @ appendString (drop (n - 1) cs)))"

definition quote :: "string \<Rightarrow> string" where
  "quote s = dquote # appendString s @ [dquote]"

fun join_comma :: "string list \<Rightarrow> string" where
  "join_comma [] = []"
| "join_comma [x] = x"
| "join_comma (x # y # ys) = x @ '','' @ join_comma (y # ys)"

section \<open>Errors\<close>

text \<open>
  The \<^verbatim>\<open>error\<close> values that reach the code. \<open>SyntaxError\<close> and \<open>UnmarshalTypeError\<close> are
  the two failures of \<^verbatim>\<open>json.Unmarshal\<close> (the spec's DeserializationError), \<open>RemoteError\<close>
  is the repository's \<^verbatim>\<open>rpcError\<close> with its code and message, \<open>UnsupportedTypeError\<close> is the
  failure of \<^verbatim>\<open>json.Marshal\<close>, \<open>TransportError\<close> is whatever the HTTP client or the reading
  of the body reports, and \<open>FileError\<close> is what \<^verbatim>\<open>os.Open\<close> or the reading of the file
  reports; the last two carry the library's message, which the code never inspects.
\<close>

datatype go_error =
    SyntaxError
  | UnmarshalTypeError
  | UnsupportedTypeError
  | RemoteError int string
  | TransportError string
  | FileError string

section \<open>Decoding into Go values\<close>

text \<open>
  \<^verbatim>\<open>json.Unmarshal(data, &s)\<close> for a \<^verbatim>\<open>string\<close> variable that holds its zero value: a JSON
  string is stored, \<^verbatim>\<open>null\<close> leaves the variable as it is, any other value is an
  \<^verbatim>\<open>UnmarshalTypeError\<close>, and input that is not one JSON value (the empty input included)
  is a \<^verbatim>\<open>SyntaxError\<close>.
\<close>

definition json_unmarshal_string :: "string \<Rightarrow> go_error + string" where
  "json_unmarshal_string data =
     (case json_parse data of
        None \<Rightarrow> Inl SyntaxError
      | Some v \<Rightarrow>
          (case v of
             JString s \<Rightarrow> Inr s
           | JNull \<Rightarrow> Inr []
           | _ \<Rightarrow> Inl UnmarshalTypeError))"

fun string_elem :: "json \<Rightarrow> string option" where
  "string_elem (JString s) = Some s"
| "string_elem JNull = Some []"
| "string_elem _ = None"

text \<open>
  The same for a \<^verbatim>\<open>[]string\<close> variable. An element of the wrong type makes the call fail
  after the remaining elements have been read; only the failure is kept here, since the
  callers abandon the value then.
\<close>

definition json_unmarshal_strings :: "string \<Rightarrow> go_error + string list" where
  "json_unmarshal_strings data =
     (case json_parse data of
        None \<Rightarrow> Inl SyntaxError
      | Some v \<Rightarrow>
          (case v of
             JArray vs \<Rightarrow>
               if list_all (\<lambda>e. string_elem e \<noteq> None) vs
               then Inr (map (\<lambda>e. the (string_elem e)) vs)
               else Inl UnmarshalTypeError
           | JNull \<Rightarrow> Inr []
           | _ \<Rightarrow> Inl UnmarshalTypeError))"

text \<open>
  A struct field is found by its name, compared without regard to case: ASCII letters are
  folded, and so are the two code points that Unicode folds to ASCII letters (U+017F to
  \<^verbatim>\<open>s\<close>, U+212A to \<^verbatim>\<open>k\<close>). All field names of the repository are in lower case.
\<close>

fun fold_name :: "string \<Rightarrow> string" where
  "fold_name [] = []"
| "fold_name (c # cs) =
     (if in_range c 0x41 0x5A then char_of (byte c + 32) # fold_name cs
      else if take 2 (c # cs) = [CHR 0xC5, CHR 0xBF] then CHR ''s'' # fold_name (drop 1 cs)
      else if take 3 (c # cs) = [CHR 0xE2, CHR 0x84, CHR 0xAA] then CHR ''k'' # fold_name (drop 2 cs)
      else c # fold_name cs)"

text \<open>A field of type \<^verbatim>\<open>int\<close> and one of type \<^verbatim>\<open>string\<close>: the new value, or \<open>None\<close> for a type error.\<close>

fun decode_int :: "json \<Rightarrow> int \<Rightarrow> int option" where
  "decode_int (JNumber lit) old = atoi lit"
| "decode_int JNull old = Some old"
| "decode_int _ old = None"

fun decode_str :: "json \<Rightarrow> string \<Rightarrow> string option" where
  "decode_str (JString s) old = Some s"
| "decode_str JNull old = Some old"
| "decode_str _ old = None"

text \<open>
  The members of an object are applied to the struct in the order of the text, so a later
  duplicate overrides an earlier one; a member that names no field is skipped.
\<close>

fun decode_fields :: "('m \<Rightarrow> 'a \<Rightarrow> 'a option) \<Rightarrow> 'm list \<Rightarrow> 'a \<Rightarrow> 'a option" where
  "decode_fields f [] a = Some a"
| "decode_fields f (m # ms) a =
     (case f m a of
        None \<Rightarrow> None
      | Some a' \<Rightarrow> decode_fields f ms a')"

subsection \<open>The envelopes of client.go\<close>

record rpcError =
  Code :: int
  Message :: string

record rpcResponse =
  resp_ID :: int
  resp_JSONRPC :: string
  resp_Result :: string
  resp_Error :: "rpcError option"

datatype go_value =
    GoString string
  | GoInt int
  | GoStrings "string list option"

record rpcRequest =
  req_ID :: int
  req_JSONRPC :: string
  req_Method :: string
  req_Params :: "go_value list"

definition decode_rpcError_field :: "string \<times> json \<Rightarrow> rpcError \<Rightarrow> rpcError option" where
  "decode_rpcError_field m e =
     (case m of
        (k, v) \<Rightarrow>
          if fold_name k = ''code'' then
            (case decode_int v (Code e) of None \<Rightarrow> None | Some n \<Rightarrow> Some (e\<lparr>Code := n\<rparr>))
          else if fold_name k = ''message'' then
            (case decode_str v (Message e) of None \<Rightarrow> None | Some s \<Rightarrow> Some (e\<lparr>Message := s\<rparr>))
          else Some e)"

definition decode_rpcResponse_field ::
  "string \<times> json \<times> string \<Rightarrow> rpcResponse \<Rightarrow> rpcResponse option" where
  "decode_rpcResponse_field m r =
     (case m of
        (k, v, raw) \<Rightarrow>
          if fold_name k = ''id'' then
            (case decode_int v (resp_ID r) of None \<Rightarrow> None | Some n \<Rightarrow> Some (r\<lparr>resp_ID := n\<rparr>))
          else if fold_name k = ''jsonrpc'' then
            (case decode_str v (resp_JSONRPC r) of
               None \<Rightarrow> None
             | Some s \<Rightarrow> Some (r\<lparr>resp_JSONRPC := s\<rparr>))
          else if fold_name k = ''result'' then Some (r\<lparr>resp_Result := raw\<rparr>)
          else if fold_name k = ''error'' then
            (case v of
               JNull \<Rightarrow> Some (r\<lparr>resp_Error := None\<rparr>)
             | JObject ms \<Rightarrow>
                 (case decode_fields decode_rpcError_field ms
                         (case resp_Error r of
                            None \<Rightarrow> \<lparr>Code = 0, Message = []\<rparr>
                          | Some e \<Rightarrow> e) of
                    None \<Rightarrow> None
                  | Some e \<Rightarrow> Some (r\<lparr>resp_Error := Some e\<rparr>))
             | _ \<Rightarrow> None)
          else Some r)"

text \<open>
  \<^verbatim>\<open>json.Unmarshal(data, resp)\<close> for \<^verbatim>\<open>resp := new(rpcResponse)\<close>: the fields start at their
  zero values, \<^verbatim>\<open>Result\<close> receives the text of the member's value and \<^verbatim>\<open>Error\<close> stays nil
  unless the member is an object. A document that is \<^verbatim>\<open>null\<close> leaves the struct untouched;
  any other document that is not an object is a type error.
\<close>

definition json_unmarshal_rpcResponse :: "string \<Rightarrow> go_error + rpcResponse" where
  "json_unmarshal_rpcResponse data =
     (case json_parse data of
        None \<Rightarrow> Inl SyntaxError
      | Some v \<Rightarrow>
          (case v of
             JNull \<Rightarrow> Inr \<lparr>resp_ID = 0, resp_JSONRPC = [], resp_Result = [], resp_Error = None\<rparr>
           | JObject _ \<Rightarrow>
               (case decode_fields decode_rpcResponse_field (top_members data)
                       \<lparr>resp_ID = 0, resp_JSONRPC = [], resp_Result = [], resp_Error = None\<rparr> of
                  None \<Rightarrow> Inl UnmarshalTypeError
                | Some r \<Rightarrow> Inr r)
           | _ \<Rightarrow> Inl UnmarshalTypeError))"

text \<open>
  \<^verbatim>\<open>json.Marshal\<close> of a parameter. The wrappers pass strings, string slices and one
  \<^verbatim>\<open>int\<close>; \<open>GoStrings None\<close> is the nil slice, which is written \<^verbatim>\<open>null\<close>.
\<close>

fun marshal_value :: "go_value \<Rightarrow> string" where
  "marshal_value (GoString s) = quote s"
| "marshal_value (GoInt i) = itoa i"
| "marshal_value (GoStrings None) = ''null''"
| "marshal_value (GoStrings (Some xs)) = ''['' @ join_comma (map quote xs) @ '']''"

text \<open>
  The variadic \<^verbatim>\<open>params\<close> of \<^verbatim>\<open>call\<close> is the nil slice when a wrapper passes no argument,
  and a nil slice is written \<^verbatim>\<open>null\<close>.
\<close>

definition marshal_params :: "go_value list \<Rightarrow> string" where
  "marshal_params ps = (if ps = [] then ''null'' else ''['' @ join_comma (map marshal_value ps) @ '']'')"

text \<open>
  \<^verbatim>\<open>json.Marshal(request)\<close>: the fields in the order of the struct, under the names of their
  tags, with no white space. None of the parameter types above can fail to encode.
\<close>

definition json_marshal_rpcRequest :: "rpcRequest \<Rightarrow> go_error + string" where
  "json_marshal_rpcRequest r =
     Inr (''{\"id\":'' @ itoa (req_ID r) @ '',\"jsonrpc\":'' @ quote (req_JSONRPC r)
          @ '',\"method\":'' @ quote (req_Method r)
          @ '',\"params\":'' @ marshal_params (req_Params r) @ ''}'')"

section \<open>HTTP clients and the outside world\<close>

text \<open>
  The field \<^verbatim>\<open>client *http.Client\<close> holds one of two things in this repository:
  \<^verbatim>\<open>http.DefaultClient\<close>, or the client that \<^verbatim>\<open>oauth2.NewClient\<close> builds around a static token
  of type \<^verbatim>\<open>Bearer\<close>, whose transport sets the header \<^verbatim>\<open>Authorization: Bearer <token>\<close> on
  every request it carries.
\<close>

datatype http_client = DefaultClient | BearerClient string

definition oauth2_NewClient :: "string \<Rightarrow> http_client" where
  "oauth2_NewClient token = BearerClient token"

definition authorization_of :: "http_client \<Rightarrow> string option" where
  "authorization_of c = (case c of DefaultClient \<Rightarrow> None | BearerClient token \<Rightarrow> Some (''Bearer '' @ token))"

record http_request =
  request_url :: string
  content_type :: string
  authorization :: "string option"
  request_body :: string

text \<open>
  What a POST comes to: the client's \<^verbatim>\<open>Post\<close> fails, or it succeeds and reading the body
  fails, or the whole body is read.
\<close>

datatype http_reply = PostFails go_error | ReadFails go_error | ResponseBody string

text \<open>
  The network and the server are a parameter: any function from the requests made so far
  and the present request to a reply. The world records the requests handed to the HTTP
  client, in order, and the lines the code prints.
\<close>

type_synonym network = "http_request list \<Rightarrow> http_request \<Rightarrow> http_reply"

record world =
  sent :: "http_request list"
  printed :: "string list"

definition http_Post ::
  "network \<Rightarrow> http_client \<Rightarrow> world \<Rightarrow> string \<Rightarrow> string \<Rightarrow> string \<Rightarrow> world \<times> http_reply" where
  "http_Post net c w u ctype body =
     (let request = \<lparr>request_url = u, content_type = ctype,
                      authorization = authorization_of c, request_body = body\<rparr>
      in (w\<lparr>sent := sent w @ [request]\<rparr>, net (sent w) request))"

section \<open>client.go\<close>

record CCClient =
  url :: string
  client :: http_client
  versionJSONRPC :: string
  Debug :: bool

definition NewCCClient :: "string \<Rightarrow> CCClient" where
  "NewCCClient u = \<lparr>url = u, client = DefaultClient, versionJSONRPC = ''2.0'', Debug = False\<rparr>"

text \<open>
  A method either returns to its caller, with a value and an \<^verbatim>\<open>error\<close> that may be nil, or
  ends the process in \<^verbatim>\<open>log.Fatalf\<close>, which prints the message and the error and exits.
\<close>

datatype 'a outcome = Fatal string go_error | Return 'a "go_error option"

text \<open>\<open>fatalIfErr err message rest\<close>: \<open>rest\<close> is what the caller does after the call returns.\<close>

definition fatalIfErr :: "go_error option \<Rightarrow> string \<Rightarrow> 'a outcome \<Rightarrow> 'a outcome" where
  "fatalIfErr err message rest = (case err of Some e \<Rightarrow> Fatal message e | None \<Rightarrow> rest)"

text \<open>The error and the variable after \<^verbatim>\<open>unErr := json.Unmarshal(res, &v)\<close>, \<open>v\<close> starting at \<open>zero\<close>.\<close>

definition unErr_of :: "go_error + 'a \<Rightarrow> go_error option" where
  "unErr_of r = (case r of Inl e \<Rightarrow> Some e | Inr _ \<Rightarrow> None)"

definition var_of :: "'a \<Rightarrow> go_error + 'a \<Rightarrow> 'a" where
  "var_of zero r = (case r of Inl _ \<Rightarrow> zero | Inr v \<Rightarrow> v)"

definition not_of_type :: "string \<Rightarrow> string" where
  "not_of_type t = ''The result is not of type \"'' @ t @ ''\" '' @ [CHR 0x0A]"

definition make_request :: "CCClient \<Rightarrow> string \<Rightarrow> go_value list \<Rightarrow> rpcRequest" where
  "make_request rpc method params =
     \<lparr>req_ID = 1, req_JSONRPC = versionJSONRPC rpc, req_Method = method, req_Params = params\<rparr>"

definition debug_line :: "string \<Rightarrow> string \<Rightarrow> string \<Rightarrow> string" where
  "debug_line method body data =
     method @ [CHR 0x0A] @ ''Request: '' @ body @ '', '' @ [CHR 0x0A] @ ''Response: '' @ data @ [CHR 0x0A]"

text \<open>
  \<open>call\<close> returns the world after the call, the raw result and the error. The raw result is
  nil on every error exit.
\<close>

definition call ::
  "network \<Rightarrow> CCClient \<Rightarrow> world \<Rightarrow> string \<Rightarrow> go_value list \<Rightarrow> world \<times> string \<times> go_error option" where
  "call net rpc w method params =
     (case json_marshal_rpcRequest (make_request rpc method params) of
        Inl err \<Rightarrow> (w, [], Some err)
      | Inr body \<Rightarrow>
          (case http_Post net (client rpc) w (url rpc) ''application/json'' body of
             (w1, PostFails err) \<Rightarrow> (w1, [], Some err)
           | (w1, ReadFails err) \<Rightarrow> (w1, [], Some err)
           | (w1, ResponseBody data) \<Rightarrow>
               (let w2 = (if Debug rpc
                          then w1\<lparr>printed := printed w1 @ [debug_line method body data]\<rparr>
                          else w1)
                in case json_unmarshal_rpcResponse data of
                     Inl err \<Rightarrow> (w2, [], Some err)
                   | Inr resp \<Rightarrow>
                       (case resp_Error resp of
                          Some e \<Rightarrow> (w2, [], Some (RemoteError (Code e) (Message e)))
                        | None \<Rightarrow> (w2, resp_Result resp, None)))))"

text \<open>
  The three shapes the wrappers have after \<open>call\<close> returns: decode the raw result into a
  \<^verbatim>\<open>string\<close>, decode it into a \<^verbatim>\<open>[]string\<close>, or drop it and return the error alone.
\<close>

definition decode_string_result ::
  "CCClient \<Rightarrow> world \<times> string \<times> go_error option \<Rightarrow> CCClient \<times> world \<times> string outcome" where
  "decode_string_result rpc r =
     (case r of
        (w, res, err) \<Rightarrow>
          (rpc, w, fatalIfErr (unErr_of (json_unmarshal_string res)) (not_of_type ''string'')
                     (Return (var_of [] (json_unmarshal_string res)) err)))"

definition decode_strings_result ::
  "CCClient \<Rightarrow> world \<times> string \<times> go_error option \<Rightarrow> CCClient \<times> world \<times> string list outcome" where
  "decode_strings_result rpc r =
     (case r of
        (w, res, err) \<Rightarrow>
          (rpc, w, fatalIfErr (unErr_of (json_unmarshal_strings res)) (not_of_type ''[]string'')
                     (Return (var_of [] (json_unmarshal_strings res)) err)))"

definition error_result ::
  "CCClient \<Rightarrow> world \<times> string \<times> go_error option \<Rightarrow> CCClient \<times> world \<times> unit outcome" where
  "error_result rpc r = (case r of (w, res, err) \<Rightarrow> (rpc, w, Return () err))"

subsection \<open>Accounts\<close>

definition CreateAccount ::
  "network \<Rightarrow> CCClient \<Rightarrow> world \<Rightarrow> string \<Rightarrow> CCClient \<times> world \<times> string outcome" where
  "CreateAccount net rpc w passphrase =
     decode_string_result rpc (call net rpc w ''accounts_createAccount'' [GoString passphrase])"

definition UnlockAccount ::
  "network \<Rightarrow> CCClient \<Rightarrow> world \<Rightarrow> string \<Rightarrow> string \<Rightarrow> CCClient \<times> world \<times> string outcome" where
  "UnlockAccount net rpc w acc passphrase =
     decode_string_result rpc (call net rpc w ''accounts_unlockAccount'' [GoString acc, GoString passphrase])"

definition LockAccount ::
  "network \<Rightarrow> CCClient \<Rightarrow> world \<Rightarrow> string \<Rightarrow> string \<Rightarrow> CCClient \<times> world \<times> unit outcome" where
  "LockAccount net rpc w account token =
     (let rpc' = rpc\<lparr>client := oauth2_NewClient token\<rparr>
      in error_result rpc' (call net rpc' w ''accounts_lockAccount'' [GoString account]))"

definition DeleteAccount ::
  "network \<Rightarrow> CCClient \<Rightarrow> world \<Rightarrow> string \<Rightarrow> string \<Rightarrow> CCClient \<times> world \<times> unit outcome" where
  "DeleteAccount net rpc w acc passphrase =
     error_result rpc (call net rpc w ''accounts_deleteAccount'' [GoString acc, GoString passphrase])"

definition ListAccounts ::
  "network \<Rightarrow> CCClient \<Rightarrow> world \<Rightarrow> CCClient \<times> world \<times> string list outcome" where
  "ListAccounts net rpc w =
     decode_strings_result rpc (call net rpc w ''accounts_listAccounts'' [])"

subsection \<open>Bootnodes\<close>

definition GetBootnodes ::
  "network \<Rightarrow> CCClient \<Rightarrow> world \<Rightarrow> CCClient \<times> world \<times> string list outcome" where
  "GetBootnodes net rpc w =
     decode_strings_result rpc (call net rpc w ''bootnodes_getBootnodes'' [])"

definition SetBootnodes ::
  "network \<Rightarrow> CCClient \<Rightarrow> world \<Rightarrow> string list option \<Rightarrow> CCClient \<times> world \<times> unit outcome" where
  "SetBootnodes net rpc w nodes =
     error_result rpc (call net rpc w ''bootnodes_setBootnodes'' [GoStrings nodes])"

subsection \<open>Swarm service\<close>

definition RunSwarmService ::
  "network \<Rightarrow> CCClient \<Rightarrow> world \<Rightarrow> string \<Rightarrow> string list option \<Rightarrow> CCClient \<times> world \<times> unit outcome" where
  "RunSwarmService net rpc w service nodes =
     error_result rpc (call net rpc w ''service_run'' [GoString service, GoStrings nodes])"

definition StopSwarmService ::
  "network \<Rightarrow> CCClient \<Rightarrow> world \<Rightarrow> string list option \<Rightarrow> CCClient \<times> world \<times> unit outcome" where
  "StopSwarmService net rpc w nodes =
     error_result rpc (call net rpc w ''service_stop'' [GoStrings nodes])"

subsection \<open>Node discovery\<close>

definition DiscoverNodes ::
  "network \<Rightarrow> CCClient \<Rightarrow> world \<Rightarrow> int \<Rightarrow> CCClient \<times> world \<times> string outcome" where
  "DiscoverNodes net rpc w num =
     decode_string_result rpc (call net rpc w ''discovery_discover'' [GoInt num])"

subsection \<open>Docker image manager\<close>

definition LoadImageToNode ::
  "network \<Rightarrow> CCClient \<Rightarrow> world \<Rightarrow> string \<Rightarrow> string \<Rightarrow> string \<Rightarrow> CCClient \<times> world \<times> string outcome" where
  "LoadImageToNode net rpc w nodeID imageHash token =
     (let rpc' = rpc\<lparr>client := oauth2_NewClient token\<rparr>
      in decode_string_result rpc' (call net rpc' w ''imagemanager_pushImage'' [GoString nodeID, GoString imageHash]))"

definition ExecuteImage ::
  "network \<Rightarrow> CCClient \<Rightarrow> world \<Rightarrow> string \<Rightarrow> string \<Rightarrow> CCClient \<times> world \<times> string outcome" where
  "ExecuteImage net rpc w nodeID dockImageID =
     decode_string_result rpc (call net rpc w ''imagemanager_runImage'' [GoString nodeID, GoString dockImageID])"

definition InspectContainer ::
  "network \<Rightarrow> CCClient \<Rightarrow> world \<Rightarrow> string \<Rightarrow> string \<Rightarrow> CCClient \<times> world \<times> string outcome" where
  "InspectContainer net rpc w nodeID containerID =
     decode_string_result rpc (call net rpc w ''imagemanager_inspectContainer'' [GoString nodeID, GoString containerID])"

definition ListNodeImages ::
  "network \<Rightarrow> CCClient \<Rightarrow> world \<Rightarrow> string \<Rightarrow> string \<Rightarrow> CCClient \<times> world \<times> string outcome" where
  "ListNodeImages net rpc w nodeID token =
     (let rpc' = rpc\<lparr>client := oauth2_NewClient token\<rparr>
      in decode_string_result rpc' (call net rpc' w ''imagemanager_listImages'' [GoString nodeID]))"

definition ListNodeContainers ::
  "network \<Rightarrow> CCClient \<Rightarrow> world \<Rightarrow> string \<Rightarrow> string \<Rightarrow> CCClient \<times> world \<times> string outcome" where
  "ListNodeContainers net rpc w nodeID token =
     (let rpc' = rpc\<lparr>client := oauth2_NewClient token\<rparr>
      in decode_string_result rpc' (call net rpc' w ''imagemanager_listContainers'' [GoString nodeID]))"

subsection \<open>Level DB\<close>

definition LvlDBStats ::
  "network \<Rightarrow> CCClient \<Rightarrow> world \<Rightarrow> CCClient \<times> world \<times> string outcome" where
  "LvlDBStats net rpc w =
     decode_string_result rpc (call net rpc w ''lvldb_getDBStats'' [])"

definition LvlDBSelectImage ::
  "network \<Rightarrow> CCClient \<Rightarrow> world \<Rightarrow> string \<Rightarrow> CCClient \<times> world \<times> string outcome" where
  "LvlDBSelectImage net rpc w imageID =
     decode_string_result rpc (call net rpc w ''lvldb_selectImage'' [GoString imageID])"

definition LvlDBSelectImageAccount ::
  "network \<Rightarrow> CCClient \<Rightarrow> world \<Rightarrow> string \<Rightarrow> CCClient \<times> world \<times> string outcome" where
  "LvlDBSelectImageAccount net rpc w imageHash =
     decode_string_result rpc (call net rpc w ''lvldb_selectImageAccount'' [GoString imageHash])"

definition LvlDBSelectType ::
  "network \<Rightarrow> CCClient \<Rightarrow> world \<Rightarrow> string \<Rightarrow> CCClient \<times> world \<times> string outcome" where
  "LvlDBSelectType net rpc w typeName =
     decode_string_result rpc (call net rpc w ''lvldb_selectType'' [GoString typeName])"

definition LvlDBSelectAll ::
  "network \<Rightarrow> CCClient \<Rightarrow> world \<Rightarrow> CCClient \<times> world \<times> string outcome" where
  "LvlDBSelectAll net rpc w =
     decode_string_result rpc (call net rpc w ''lvldb_selectAll'' [])"

section \<open>Any call of a wrapper\<close>

text \<open>
  To speak of every wrapper, and of sequences of calls on one client, a call of an
  exported method is a value: the method and its arguments. \<open>invoke\<close> runs it; the three
  result types are put into one.
\<close>

datatype wrapper_call =
    CallCreateAccount string
  | CallUnlockAccount string string
  | CallLockAccount string string
  | CallDeleteAccount string string
  | CallListAccounts
  | CallGetBootnodes
  | CallSetBootnodes "string list option"
  | CallRunSwarmService string "string list option"
  | CallStopSwarmService "string list option"
  | CallDiscoverNodes int
  | CallLoadImageToNode string string string
  | CallExecuteImage string string
  | CallInspectContainer string string
  | CallListNodeImages string string
  | CallListNodeContainers string string
  | CallLvlDBStats
  | CallLvlDBSelectImage string
  | CallLvlDBSelectImageAccount string
  | CallLvlDBSelectType string
  | CallLvlDBSelectAll

datatype go_result = StringResult string | StringsResult "string list" | NoResult

fun map_outcome :: "('a \<Rightarrow> 'b) \<Rightarrow> 'a outcome \<Rightarrow> 'b outcome" where
  "map_outcome f (Fatal message e) = Fatal message e"
| "map_outcome f (Return v err) = Return (f v) err"

definition returning ::
  "('a \<Rightarrow> go_result) \<Rightarrow> CCClient \<times> world \<times> 'a outcome \<Rightarrow> CCClient \<times> world \<times> go_result outcome" where
  "returning f r = (case r of (rpc, w, out) \<Rightarrow> (rpc, w, map_outcome f out))"

fun invoke :: "network \<Rightarrow> CCClient \<Rightarrow> world \<Rightarrow> wrapper_call \<Rightarrow> CCClient \<times> world \<times> go_result outcome" where
  "invoke net rpc w (CallCreateAccount passphrase) =
     returning StringResult (CreateAccount net rpc w passphrase)"
| "invoke net rpc w (CallUnlockAccount acc passphrase) =
     returning StringResult (UnlockAccount net rpc w acc passphrase)"
| "invoke net rpc w (CallLockAccount account token) =
     returning (\<lambda>_. NoResult) (LockAccount net rpc w account token)"
| "invoke net rpc w (CallDeleteAccount acc passphrase) =
     returning (\<lambda>_. NoResult) (DeleteAccount net rpc w acc passphrase)"
| "invoke net rpc w CallListAccounts =
     returning StringsResult (ListAccounts net rpc w)"
| "invoke net rpc w CallGetBootnodes =
     returning StringsResult (GetBootnodes net rpc w)"
| "invoke net rpc w (CallSetBootnodes nodes) =
     returning (\<lambda>_. NoResult) (SetBootnodes net rpc w nodes)"
| "invoke net rpc w (CallRunSwarmService service nodes) =
     returning (\<lambda>_. NoResult) (RunSwarmService net rpc w service nodes)"
| "invoke net rpc w (CallStopSwarmService nodes) =
     returning (\<lambda>_. NoResult) (StopSwarmService net rpc w nodes)"
| "invoke net rpc w (CallDiscoverNodes num) =
     returning StringResult (DiscoverNodes net rpc w num)"
| "invoke net rpc w (CallLoadImageToNode nodeID imageHash token) =
     returning StringResult (LoadImageToNode net rpc w nodeID imageHash token)"
| "invoke net rpc w (CallExecuteImage nodeID dockImageID) =
     returning StringResult (ExecuteImage net rpc w nodeID dockImageID)"
| "invoke net rpc w (CallInspectContainer nodeID containerID) =
     returning StringResult (InspectContainer net rpc w nodeID containerID)"
| "invoke net rpc w (CallListNodeImages nodeID token) =
     returning StringResult (ListNodeImages net rpc w nodeID token)"
| "invoke net rpc w (CallListNodeContainers nodeID token) =
     returning StringResult (ListNodeContainers net rpc w nodeID token)"
| "invoke net rpc w CallLvlDBStats =
     returning StringResult (LvlDBStats net rpc w)"
| "invoke net rpc w (CallLvlDBSelectImage imageID) =
     returning StringResult (LvlDBSelectImage net rpc w imageID)"
| "invoke net rpc w (CallLvlDBSelectImageAccount imageHash) =
     returning StringResult (LvlDBSelectImageAccount net rpc w imageHash)"
| "invoke net rpc w (CallLvlDBSelectType typeName) =
     returning StringResult (LvlDBSelectType net rpc w typeName)"
| "invoke net rpc w CallLvlDBSelectAll =
     returning StringResult (LvlDBSelectAll net rpc w)"

text \<open>
  A sequence of calls on one client instance, each starting from the client and the world
  the one before left. It stops at a call that ends the process. The result holds the
  outcomes of the calls that ran, in order: one for each call up to and including the
  first that ended the process.
\<close>

fun invoke_all ::
  "network \<Rightarrow> CCClient \<Rightarrow> world \<Rightarrow> wrapper_call list \<Rightarrow> CCClient \<times> world \<times> go_result outcome list" where
  "invoke_all net rpc w [] = (rpc, w, [])"
| "invoke_all net rpc w (c # cs) =
     (case invoke net rpc w c of
        (rpc', w', Fatal message e) \<Rightarrow> (rpc', w', [Fatal message e])
      | (rpc', w', Return v err) \<Rightarrow>
          (case invoke_all net rpc' w' cs of
             (rpc'', w'', outs) \<Rightarrow> (rpc'', w'', Return v err # outs)))"

text \<open>
  The clients a program can hold: one built by \<open>NewCCClient\<close>, then used for any calls,
  with the exported field \<^verbatim>\<open>Debug\<close> set at will in between. The other fields are not
  exported and nothing else in the package writes them.
\<close>

inductive reachable :: "CCClient \<Rightarrow> bool" where
  new: "reachable (NewCCClient u)"
| set_debug: "reachable rpc \<Longrightarrow> reachable (rpc\<lparr>Debug := d\<rparr>)"
| invoked: "reachable rpc \<Longrightarrow> invoke net rpc w c = (rpc', w', out) \<Longrightarrow> reachable rpc'"

subsection \<open>The catalogue of wrappers\<close>

text \<open>
  What each wrapper is made of, read off its definition: the method name, the positional
  parameters, the token (for the wrappers that take one) and the shape its result is
  decoded into. Lemma \<open>invoke_catalogue\<close> below checks the catalogue against the wrappers.
\<close>

fun method_of :: "wrapper_call \<Rightarrow> string" where
  "method_of (CallCreateAccount passphrase) = ''accounts_createAccount''"
| "method_of (CallUnlockAccount acc passphrase) = ''accounts_unlockAccount''"
| "method_of (CallLockAccount account token) = ''accounts_lockAccount''"
| "method_of (CallDeleteAccount acc passphrase) = ''accounts_deleteAccount''"
| "method_of CallListAccounts = ''accounts_listAccounts''"
| "method_of CallGetBootnodes = ''bootnodes_getBootnodes''"
| "method_of (CallSetBootnodes nodes) = ''bootnodes_setBootnodes''"
| "method_of (CallRunSwarmService service nodes) = ''service_run''"
| "method_of (CallStopSwarmService nodes) = ''service_stop''"
| "method_of (CallDiscoverNodes num) = ''discovery_discover''"
| "method_of (CallLoadImageToNode nodeID imageHash token) = ''imagemanager_pushImage''"
| "method_of (CallExecuteImage nodeID dockImageID) = ''imagemanager_runImage''"
| "method_of (CallInspectContainer nodeID containerID) = ''imagemanager_inspectContainer''"
| "method_of (CallListNodeImages nodeID token) = ''imagemanager_listImages''"
| "method_of (CallListNodeContainers nodeID token) = ''imagemanager_listContainers''"
| "method_of CallLvlDBStats = ''lvldb_getDBStats''"
| "method_of (CallLvlDBSelectImage imageID) = ''lvldb_selectImage''"
| "method_of (CallLvlDBSelectImageAccount imageHash) = ''lvldb_selectImageAccount''"
| "method_of (CallLvlDBSelectType typeName) = ''lvldb_selectType''"
| "method_of CallLvlDBSelectAll = ''lvldb_selectAll''"

fun params_of :: "wrapper_call \<Rightarrow> go_value list" where
  "params_of (CallCreateAccount passphrase) = [GoString passphrase]"
| "params_of (CallUnlockAccount acc passphrase) = [GoString acc, GoString passphrase]"
| "params_of (CallLockAccount account token) = [GoString account]"
| "params_of (CallDeleteAccount acc passphrase) = [GoString acc, GoString passphrase]"
| "params_of CallListAccounts = []"
| "params_of CallGetBootnodes = []"
| "params_of (CallSetBootnodes nodes) = [GoStrings nodes]"
| "params_of (CallRunSwarmService service nodes) = [GoString service, GoStrings nodes]"
| "params_of (CallStopSwarmService nodes) = [GoStrings nodes]"
| "params_of (CallDiscoverNodes num) = [GoInt num]"
| "params_of (CallLoadImageToNode nodeID imageHash token) = [GoString nodeID, GoString imageHash]"
| "params_of (CallExecuteImage nodeID dockImageID) = [GoString nodeID, GoString dockImageID]"
| "params_of (CallInspectContainer nodeID containerID) = [GoString nodeID, GoString containerID]"
| "params_of (CallListNodeImages nodeID token) = [GoString nodeID]"
| "params_of (CallListNodeContainers nodeID token) = [GoString nodeID]"
| "params_of CallLvlDBStats = []"
| "params_of (CallLvlDBSelectImage imageID) = [GoString imageID]"
| "params_of (CallLvlDBSelectImageAccount imageHash) = [GoString imageHash]"
| "params_of (CallLvlDBSelectType typeName) = [GoString typeName]"
| "params_of CallLvlDBSelectAll = []"

fun token_of :: "wrapper_call \<Rightarrow> string option" where
  "token_of (CallLockAccount account token) = Some token"
| "token_of (CallLoadImageToNode nodeID imageHash token) = Some token"
| "token_of (CallListNodeImages nodeID token) = Some token"
| "token_of (CallListNodeContainers nodeID token) = Some token"
| "token_of _ = None"

datatype shape = AsString | AsStrings | ErrorOnly

fun shape_of :: "wrapper_call \<Rightarrow> shape" where
  "shape_of (CallLockAccount account token) = ErrorOnly"
| "shape_of (CallDeleteAccount acc passphrase) = ErrorOnly"
| "shape_of (CallSetBootnodes nodes) = ErrorOnly"
| "shape_of (CallRunSwarmService service nodes) = ErrorOnly"
| "shape_of (CallStopSwarmService nodes) = ErrorOnly"
| "shape_of CallListAccounts = AsStrings"
| "shape_of CallGetBootnodes = AsStrings"
| "shape_of _ = AsString"

text \<open>The client a wrapper issues its call on, and leaves behind.\<close>

definition bound_client :: "CCClient \<Rightarrow> wrapper_call \<Rightarrow> CCClient" where
  "bound_client rpc c =
     (case token_of c of
        None \<Rightarrow> rpc
      | Some token \<Rightarrow> rpc\<lparr>client := oauth2_NewClient token\<rparr>)"

text \<open>What a wrapper of each shape makes of the raw result and the error of \<open>call\<close>.\<close>

definition finish :: "shape \<Rightarrow> string \<Rightarrow> go_error option \<Rightarrow> go_result outcome" where
  "finish sh res err =
     (case sh of
        AsString \<Rightarrow>
          (case json_unmarshal_string res of
             Inl e \<Rightarrow> Fatal (not_of_type ''string'') e
           | Inr v \<Rightarrow> Return (StringResult v) err)
      | AsStrings \<Rightarrow>
          (case json_unmarshal_strings res of
             Inl e \<Rightarrow> Fatal (not_of_type ''[]string'') e
           | Inr vs \<Rightarrow> Return (StringsResult vs) err)
      | ErrorOnly \<Rightarrow> Return NoResult err)"

text \<open>
  The token that the transport of a client carries after a call, given the token it carried
  before: a wrapper that takes a token binds its own, any other wrapper leaves the one that
  is there. \<open>bearer_headers\<close> lists the Authorization headers that this gives a sequence of
  calls, one for each call.
\<close>

definition token_after :: "string \<Rightarrow> wrapper_call \<Rightarrow> string" where
  "token_after token c = (case token_of c of None \<Rightarrow> token | Some token' \<Rightarrow> token')"

fun bearer_headers :: "string \<Rightarrow> wrapper_call list \<Rightarrow> string option list" where
  "bearer_headers token [] = []"
| "bearer_headers token (c # cs) =
     Some (''Bearer '' @ token_after token c) # bearer_headers (token_after token c) cs"

section \<open>file\_upload\_client.go\<close>

record UploadClient =
  up_url :: string
  up_client :: http_client
  up_Debug :: bool

definition NewUploadClient :: "string \<Rightarrow> UploadClient" where
  "NewUploadClient u = \<lparr>up_url = u, up_client = DefaultClient, up_Debug = False\<rparr>"

text \<open>
  What \<^verbatim>\<open>os.Open\<close> and \<^verbatim>\<open>io.Copy\<close> find at a path: the file cannot be opened; it opens
  but reading it fails (a directory, for one); or its content is read to the end.
\<close>

datatype local_file = OpenFails go_error | CopyFails go_error | Readable string

type_synonym filesystem = "string \<Rightarrow> local_file"

text \<open>
  The multipart writer of the library is a parameter: its content type (which names the
  boundary it drew at random) and the body it produces for one form file, given the file's
  name and content. It writes to a buffer in memory, which cannot fail, so the error exit
  after \<^verbatim>\<open>CreateFormFile\<close> is never taken and has no branch here.
\<close>

record multipart =
  FormDataContentType :: string
  form_file :: "string \<Rightarrow> string \<Rightarrow> string"

definition UploadFile ::
  "multipart \<Rightarrow> filesystem \<Rightarrow> network \<Rightarrow> UploadClient \<Rightarrow> world \<Rightarrow> string \<Rightarrow> string
     \<Rightarrow> UploadClient \<times> world \<times> string \<times> go_error option" where
  "UploadFile mp fs net c w filename token =
     (let c' = c\<lparr>up_client := oauth2_NewClient token\<rparr> in
      case fs filename of
        OpenFails err \<Rightarrow> (c', w\<lparr>printed := printed w @ [''error opening file'']\<rparr>, [], Some err)
      | CopyFails err \<Rightarrow> (c', w, [], Some err)
      | Readable content \<Rightarrow>
          (case http_Post net (up_client c') w (up_url c') (FormDataContentType mp)
                  (form_file mp filename content) of
             (w1, PostFails err) \<Rightarrow> (c', w1, [], Some err)
           | (w1, ReadFails err) \<Rightarrow> (c', w1, [], Some err)
           | (w1, ResponseBody respBody) \<Rightarrow> (c', w1, respBody, None)))"

section \<open>Reading a request back\<close>

text \<open>
  The receiving side of a request is not part of the repository. To state what a round trip
  preserves, a request body is read back the way a JSON-RPC server reads it: the body is
  parsed as a JSON document, which must be an object, and its member \<^verbatim>\<open>method\<close> (a string)
  and its member \<^verbatim>\<open>params\<close> (an array, or \<^verbatim>\<open>null\<close> for no parameters) are taken from it.
\<close>

definition read_request :: "string \<Rightarrow> (string \<times> json list) option" where
  "read_request body =
     (case json_parse body of
        Some (JObject ms) \<Rightarrow>
          (case map_of ms ''method'' of
             Some (JString m) \<Rightarrow>
               (case map_of ms ''params'' of
                  Some (JArray ps) \<Rightarrow> Some (m, ps)
                | Some JNull \<Rightarrow> Some (m, [])
                | _ \<Rightarrow> None)
           | _ \<Rightarrow> None)
      | _ \<Rightarrow> None)"

text \<open>The JSON value that a Go parameter stands for.\<close>

fun to_json :: "go_value \<Rightarrow> json" where
  "to_json (GoString s) = JString s"
| "to_json (GoInt i) = JNumber (itoa i)"
| "to_json (GoStrings None) = JNull"
| "to_json (GoStrings (Some xs)) = JArray (map JString xs)"

text \<open>
  What a string becomes on the way through the encoder: each byte that does not start a
  well-formed UTF-8 sequence is replaced by U+FFFD. A string of well-formed UTF-8 stays as
  it is.
\<close>

fun coerce_utf8 :: "string \<Rightarrow> string" where
  "coerce_utf8 [] = []"
| "coerce_utf8 (c # cs) =
     (if byte c < 0x80 then c # coerce_utf8 cs
      else
        (let n = utf8_seq_len (c # cs) in
         if n = 0 then replacement_char @ coerce_utf8 cs
         else take n (c # cs) @ coerce_utf8 (drop (n - 1) cs)))"

fun valid_value :: "go_value \<Rightarrow> bool" where
  "valid_value (GoString s) = valid_utf8 s"
| "valid_value (GoInt i) = True"
| "valid_value (GoStrings None) = True"
| "valid_value (GoStrings (Some xs)) = list_all valid_utf8 xs"

text \<open>The bytes that follow a value inside an array or an object of the encoder's output.\<close>

definition ends_value :: "char \<Rightarrow> bool" where
  "ends_value c \<longleftrightarrow> c = CHR '','' \<or> c = CHR '']'' \<or> c = CHR ''}''"

section \<open>Properties\<close>

subsection \<open>Evaluation\<close>

text \<open>The definitions to unfold when a concrete exchange is computed.\<close>

lemmas json_eval =
  json_unmarshal_rpcResponse_def json_unmarshal_string_def json_unmarshal_strings_def
  json_parse_def top_members_def skip_ws_def is_space_def is_digit_def in_range_def byte_def
  dquote_def backslash_def scan_number_def int_part_def frac_part_def exp_part_def
  scan_digits_def scan_literal_def prepend_def unescape_char_def
  decode_rpcResponse_field_def decode_rpcError_field_def atoi_def digits_value_def Let_def

lemmas call_eval =
  call_def make_request_def NewCCClient_def json_marshal_rpcRequest_def marshal_params_def
  quote_def html_safe_def escape_byte_def itoa_def digit_char_def http_Post_def
  authorization_of_def oauth2_NewClient_def bound_client_def

subsection \<open>The wrappers against their catalogue, and the exits of call\<close>

lemmas wrapper_defs =
  CreateAccount_def UnlockAccount_def LockAccount_def DeleteAccount_def ListAccounts_def
  GetBootnodes_def SetBootnodes_def RunSwarmService_def StopSwarmService_def DiscoverNodes_def
  LoadImageToNode_def ExecuteImage_def InspectContainer_def ListNodeImages_def
  ListNodeContainers_def LvlDBStats_def LvlDBSelectImage_def LvlDBSelectImageAccount_def
  LvlDBSelectType_def LvlDBSelectAll_def

lemma string_result_finish:
  "returning StringResult (decode_string_result rpc r) =
     (case r of (w, res, err) \<Rightarrow> (rpc, w, finish AsString res err))"
  by (simp add: returning_def decode_string_result_def finish_def fatalIfErr_def unErr_of_def
        var_of_def split: prod.splits sum.splits)

lemma strings_result_finish:
  "returning StringsResult (decode_strings_result rpc r) =
     (case r of (w, res, err) \<Rightarrow> (rpc, w, finish AsStrings res err))"
  by (simp add: returning_def decode_strings_result_def finish_def fatalIfErr_def unErr_of_def
        var_of_def split: prod.splits sum.splits)

lemma error_result_finish:
  "returning (\<lambda>_. NoResult) (error_result rpc r) =
     (case r of (w, res, err) \<Rightarrow> (rpc, w, finish ErrorOnly res err))"
  by (simp add: returning_def error_result_def finish_def split: prod.splits)

lemma invoke_catalogue:
  "invoke net rpc w c =
     (case call net (bound_client rpc c) w (method_of c) (params_of c) of
        (w', res, err) \<Rightarrow> (bound_client rpc c, w', finish (shape_of c) res err))"
  by (cases c)
     (simp_all add: wrapper_defs bound_client_def string_result_finish strings_result_finish
        error_result_finish Let_def)


lemma call_result:
  assumes "json_marshal_rpcRequest (make_request rpc m ps) = Inr body"
  shows "call net rpc w m ps =
     (case http_Post net (client rpc) w (url rpc) ''application/json'' body of
        (w1, PostFails err) \<Rightarrow> (w1, [], Some err)
      | (w1, ReadFails err) \<Rightarrow> (w1, [], Some err)
      | (w1, ResponseBody data) \<Rightarrow>
          (if Debug rpc then w1\<lparr>printed := printed w1 @ [debug_line m body data]\<rparr> else w1,
           case json_unmarshal_rpcResponse data of
             Inl err \<Rightarrow> ([], Some err)
           | Inr resp \<Rightarrow>
               (case resp_Error resp of
                  Some e \<Rightarrow> ([], Some (RemoteError (Code e) (Message e)))
                | None \<Rightarrow> (resp_Result resp, None))))"
  using assms
  by (simp add: call_def Let_def split: prod.splits http_reply.splits sum.splits option.splits)

lemma marshal_succeeds: "\<exists>body. json_marshal_rpcRequest r = Inr body"
  by (simp add: json_marshal_rpcRequest_def)

lemma call_error_nil:
  assumes "call net rpc w m ps = (w', res, Some e)"
  shows "res = []"
proof -
  obtain body where b: "json_marshal_rpcRequest (make_request rpc m ps) = Inr body"
    using marshal_succeeds by blast
  show ?thesis
    using assms unfolding call_result [OF b]
    by (auto split: prod.splits http_reply.splits sum.splits option.splits)
qed

lemma call_sent:
  assumes "json_marshal_rpcRequest (make_request rpc m ps) = Inr body"
  shows "sent (fst (call net rpc w m ps)) =
     sent w @ [\<lparr>request_url = url rpc, content_type = ''application/json'',
                 authorization = authorization_of (client rpc), request_body = body\<rparr>]"
  unfolding call_result [OF assms]
  by (auto simp: http_Post_def Let_def split: prod.splits http_reply.splits sum.splits option.splits)

lemma json_parse_empty: "json_parse [] = None"
  by (simp add: json_parse_def skip_ws_def)

lemma unmarshal_string_nil: "json_unmarshal_string [] = Inl SyntaxError"
  by (simp add: json_unmarshal_string_def json_parse_empty)

lemma unmarshal_strings_nil: "json_unmarshal_strings [] = Inl SyntaxError"
  by (simp add: json_unmarshal_strings_def json_parse_empty)

lemma reachable_version: "reachable rpc \<Longrightarrow> versionJSONRPC rpc = ''2.0''"
proof (induction rule: reachable.induct)
  case (new u)
  show ?case by (simp add: NewCCClient_def)
next
  case (set_debug rpc d)
  then show ?case by simp
next
  case (invoked rpc net w c rpc' w' out)
  from invoked.hyps(2) have "rpc' = bound_client rpc c"
    by (simp add: invoke_catalogue split: prod.splits)
  with invoked.IH show ?case
    by (simp add: bound_client_def split: option.splits)
qed

lemma call_authorization:
  "map authorization (sent (fst (call net rpc w m ps))) =
     map authorization (sent w) @ [authorization_of (client rpc)]"
proof -
  obtain body where b: "json_marshal_rpcRequest (make_request rpc m ps) = Inr body"
    using marshal_succeeds by blast
  show ?thesis by (simp add: call_sent [OF b])
qed

lemma decode_string_result_parts:
  "fst (decode_string_result rpc r) = rpc" "fst (snd (decode_string_result rpc r)) = fst r"
  by (simp_all add: decode_string_result_def split: prod.splits)

lemma invoke_parts:
  "fst (invoke net rpc w c) = bound_client rpc c"
  "map authorization (sent (fst (snd (invoke net rpc w c)))) =
     map authorization (sent w) @ [authorization_of (client (bound_client rpc c))]"
  using call_authorization [of net "bound_client rpc c" w "method_of c" "params_of c"]
  by (auto simp: invoke_catalogue split: prod.splits)

lemma call_remote_error:
  assumes "json_marshal_rpcRequest (make_request rpc m ps) = Inr body"
    and "snd (http_Post net (client rpc) w (url rpc) ''application/json'' body) = ResponseBody data"
    and "json_unmarshal_rpcResponse data = Inr resp" and "resp_Error resp = Some e"
  shows "snd (call net rpc w m ps) = ([], Some (RemoteError (Code e) (Message e)))"
  using assms(2-) unfolding call_result [OF assms(1)]
  by (auto split: prod.splits)

lemma call_decoding_error:
  assumes "json_marshal_rpcRequest (make_request rpc m ps) = Inr body"
    and "snd (http_Post net (client rpc) w (url rpc) ''application/json'' body) = ResponseBody data"
    and "json_unmarshal_rpcResponse data = Inl err"
  shows "snd (call net rpc w m ps) = ([], Some err)"
  using assms(2-) unfolding call_result [OF assms(1)]
  by (auto split: prod.splits)

text \<open>
  What the wrappers make of an error of \<open>call\<close>, whatever it is: the five that return an
  error alone hand it to their caller; the fifteen that decode a result end the process,
  because the nil result does not unmarshal.
\<close>

lemma error_only_wrapper_returns_error:
  assumes "shape_of c = ErrorOnly"
  shows "snd (snd (invoke net rpc w c))
           = Return NoResult (snd (snd (call net (bound_client rpc c) w (method_of c) (params_of c))))"
  using assms by (simp add: invoke_catalogue finish_def split: prod.splits)

lemma decoding_wrapper_aborts_on_error:
  assumes "shape_of c \<noteq> ErrorOnly"
    and "snd (snd (call net (bound_client rpc c) w (method_of c) (params_of c))) = Some e"
  shows "\<exists>message. snd (snd (invoke net rpc w c)) = Fatal message SyntaxError"
proof -
  obtain w' res where r: "call net (bound_client rpc c) w (method_of c) (params_of c) = (w', res, Some e)"
    using assms(2) by (cases "call net (bound_client rpc c) w (method_of c) (params_of c)") auto
  from call_error_nil [OF r] have "res = []" .
  with r assms(1) show ?thesis
    by (cases "shape_of c")
       (simp_all add: invoke_catalogue finish_def unmarshal_string_nil unmarshal_strings_nil)
qed

subsection \<open>Claims about the wrappers\<close>

text \<open>
  C1 (observed behaviour). The claim is that a response with the error field populated
  makes every wrapper return a nil value and a RemoteError with the code and message of the
  response, and that \<open>UnlockAccount\<close> in particular returns code -32000 instead of aborting.
  \<open>call\<close> does return that error, with a nil result. \<open>UnlockAccount\<close> then unmarshals the nil
  result before it looks at the error; that fails, and \<open>fatalIfErr\<close> ends the process.
\<close>

theorem UnlockAccount_remote_error_aborts:
  "snd (call
      (\<lambda>_ _. ResponseBody ''{\"error\":{\"code\":-32000,\"message\":\"invalid passphrase\"}}'')
      (NewCCClient ''http://localhost:8080'') \<lparr>sent = [], printed = []\<rparr>
      ''accounts_unlockAccount'' [GoString ''0xABC'', GoString ''wrong''])
   = ([], Some (RemoteError (- 32000) ''invalid passphrase''))
 \<and> snd (snd (UnlockAccount
      (\<lambda>_ _. ResponseBody ''{\"error\":{\"code\":-32000,\"message\":\"invalid passphrase\"}}'')
      (NewCCClient ''http://localhost:8080'') \<lparr>sent = [], printed = []\<rparr> ''0xABC'' ''wrong''))
   = Fatal (not_of_type ''string'') SyntaxError"
  by (simp add: UnlockAccount_def decode_string_result_def fatalIfErr_def unErr_of_def
        call_eval json_eval)

text \<open>
  C2. For every wrapper that decodes a result: if the raw result that \<open>call\<close> hands it does
  not unmarshal into the expected type (string, or list of strings), the wrapper ends the
  process through \<open>fatalIfErr\<close> with the decoding error, which is therefore never returned to
  the caller; if the raw result does unmarshal, the wrapper returns the decoded value, and
  the error it returns with it is nil.
\<close>

theorem decode_failure_is_fatal:
  assumes "shape_of c \<noteq> ErrorOnly"
    and "call net (bound_client rpc c) w (method_of c) (params_of c) = (w', res, err)"
  shows "(shape_of c = AsString \<longrightarrow>
            (case json_unmarshal_string res of
               Inl e \<Rightarrow> snd (snd (invoke net rpc w c)) = Fatal (not_of_type ''string'') e
             | Inr v \<Rightarrow> snd (snd (invoke net rpc w c)) = Return (StringResult v) None))
       \<and> (shape_of c = AsStrings \<longrightarrow>
            (case json_unmarshal_strings res of
               Inl e \<Rightarrow> snd (snd (invoke net rpc w c)) = Fatal (not_of_type ''[]string'') e
             | Inr vs \<Rightarrow> snd (snd (invoke net rpc w c)) = Return (StringsResult vs) None))"
proof -
  have nil: "err \<noteq> None \<Longrightarrow> res = []"
    using assms(2) call_error_nil by (cases err) auto
  have out: "snd (snd (invoke net rpc w c)) = finish (shape_of c) res err"
    by (simp add: invoke_catalogue assms(2))
  show ?thesis
    using nil unfolding out
    by (cases err)
       (auto simp: finish_def unmarshal_string_nil unmarshal_strings_nil split: sum.splits)
qed

theorem decode_failure_is_fatal_witness:
  "shape_of CallListAccounts \<noteq> ErrorOnly
 \<and> snd (call (\<lambda>_ _. ResponseBody ''{\"result\":\"0xABC\",\"error\":null}'')
      (NewCCClient ''http://localhost:8080'') \<lparr>sent = [], printed = []\<rparr>
      ''accounts_listAccounts'' []) = ([CHR 0x22] @ ''0xABC'' @ [CHR 0x22], None)
 \<and> snd (snd (invoke (\<lambda>_ _. ResponseBody ''{\"result\":\"0xABC\",\"error\":null}'')
      (NewCCClient ''http://localhost:8080'') \<lparr>sent = [], printed = []\<rparr> CallListAccounts))
   = Fatal (not_of_type ''[]string'') UnmarshalTypeError"
proof -
  let ?net = "\<lambda>(_::http_request list) (_::http_request).
                ResponseBody ''{\"result\":\"0xABC\",\"error\":null}''"
  let ?r = "call ?net (bound_client (NewCCClient ''http://localhost:8080'') CallListAccounts) \<lparr>sent = [], printed = []\<rparr>
              (method_of CallListAccounts) (params_of CallListAccounts)"
  have r: "snd ?r = ([CHR 0x22] @ ''0xABC'' @ [CHR 0x22], None)"
    by (simp add: call_eval json_eval)
  have "?r = (fst ?r, [CHR 0x22] @ ''0xABC'' @ [CHR 0x22], None)"
    using r by (metis prod.collapse)
  from decode_failure_is_fatal [OF _ this] r show ?thesis
    by (simp add: json_eval bound_client_def)
qed

text \<open>
  C3 (as stated, false). The claim is that all five image wrappers rebind the transport to
  a bearer token. \<open>ExecuteImage\<close> takes no token: on a new client its request goes out with
  no Authorization header.
\<close>

theorem ExecuteImage_sends_no_authorization:
  "map authorization (sent (fst (snd (ExecuteImage
      (\<lambda>_ _. ResponseBody ''{\"result\":\"c0ffee\",\"error\":null}'')
      (NewCCClient ''http://localhost:8080'') \<lparr>sent = [], printed = []\<rparr> ''node1'' ''image1''))))
   = [None]"
  by (simp add: ExecuteImage_def decode_string_result_def call_eval json_eval)

text \<open>
  C3 (amended). \<open>LoadImageToNode\<close>, \<open>ListNodeImages\<close> and \<open>ListNodeContainers\<close> leave the client
  bound to the bearer transport of the token they are given, and the request they hand to
  it carries \<^verbatim>\<open>Authorization: Bearer <token>\<close>. \<open>ExecuteImage\<close> and \<open>InspectContainer\<close> take no
  token and leave the client as it is: their request carries whatever the client's present
  transport adds, which is nothing on a new client.
\<close>

theorem image_wrappers_authorization:
  "(client (fst (LoadImageToNode net rpc w nodeID imageHash token)) = BearerClient token
    \<and> map authorization (sent (fst (snd (LoadImageToNode net rpc w nodeID imageHash token))))
        = map authorization (sent w) @ [Some (''Bearer '' @ token)])
 \<and> (client (fst (ListNodeImages net rpc w nodeID token)) = BearerClient token
    \<and> map authorization (sent (fst (snd (ListNodeImages net rpc w nodeID token))))
        = map authorization (sent w) @ [Some (''Bearer '' @ token)])
 \<and> (client (fst (ListNodeContainers net rpc w nodeID token)) = BearerClient token
    \<and> map authorization (sent (fst (snd (ListNodeContainers net rpc w nodeID token))))
        = map authorization (sent w) @ [Some (''Bearer '' @ token)])
 \<and> (fst (ExecuteImage net rpc w nodeID dockImageID) = rpc
    \<and> map authorization (sent (fst (snd (ExecuteImage net rpc w nodeID dockImageID))))
        = map authorization (sent w) @ [authorization_of (client rpc)])
 \<and> (fst (InspectContainer net rpc w nodeID containerID) = rpc
    \<and> map authorization (sent (fst (snd (InspectContainer net rpc w nodeID containerID))))
        = map authorization (sent w) @ [authorization_of (client rpc)])"
  by (simp add: LoadImageToNode_def ListNodeImages_def ListNodeContainers_def ExecuteImage_def
        InspectContainer_def Let_def decode_string_result_parts call_authorization
        oauth2_NewClient_def authorization_of_def)

theorem image_wrappers_authorization_witness:
  "map authorization (sent (fst (snd (LoadImageToNode
      (\<lambda>_ _. ResponseBody ''{\"result\":\"c0ffee\",\"error\":null}'')
      (NewCCClient ''http://localhost:8080'') \<lparr>sent = [], printed = []\<rparr> ''node1'' ''hash1'' ''tok123''))))
   = [Some ''Bearer tok123'']"
  using image_wrappers_authorization
    [of "\<lambda>_ _. ResponseBody ''{\"result\":\"c0ffee\",\"error\":null}''"
        "(NewCCClient ''http://localhost:8080'')" "\<lparr>sent = [], printed = []\<rparr>" "''node1''" "''hash1''" "''tok123''"]
  by simp

text \<open>
  C4. When the server's reply to the request of a wrapper is a well-formed envelope whose
  error is null and whose result has the expected shape, the wrapper returns the decoded
  value (nothing, for the wrappers that return an error alone) and a nil error. The witness
  is the scenario of the claim: \<open>CreateAccount\<close> with passphrase \<^verbatim>\<open>pw123\<close>.
\<close>

theorem success_response_is_decoded:
  assumes marshal: "json_marshal_rpcRequest (make_request (bound_client rpc c) (method_of c) (params_of c)) = Inr body"
    and reply: "snd (http_Post net (client (bound_client rpc c)) w (url (bound_client rpc c)) ''application/json'' body)
                  = ResponseBody data"
    and envelope: "json_unmarshal_rpcResponse data = Inr resp"
    and no_error: "resp_Error resp = None"
    and str: "shape_of c = AsString \<Longrightarrow> json_unmarshal_string (resp_Result resp) = Inr s"
    and strs: "shape_of c = AsStrings \<Longrightarrow> json_unmarshal_strings (resp_Result resp) = Inr ss"
  shows "snd (snd (invoke net rpc w c)) =
           Return (case shape_of c of
                     AsString \<Rightarrow> StringResult s
                   | AsStrings \<Rightarrow> StringsResult ss
                   | ErrorOnly \<Rightarrow> NoResult) None"
proof -
  have "snd (call net (bound_client rpc c) w (method_of c) (params_of c)) = (resp_Result resp, None)"
    using reply envelope no_error unfolding call_result [OF marshal]
    by (auto split: prod.splits)
  then have "snd (snd (invoke net rpc w c)) = finish (shape_of c) (resp_Result resp) None"
    by (auto simp: invoke_catalogue split: prod.splits)
  then show ?thesis
    using str strs by (cases "shape_of c") (simp_all add: finish_def)
qed

theorem success_response_is_decoded_witness:
  "json_unmarshal_rpcResponse ''{\"id\":1,\"jsonrpc\":\"2.0\",\"result\":\"0xABC...\",\"error\":null}''
     = Inr \<lparr>resp_ID = 1, resp_JSONRPC = ''2.0'',
             resp_Result = [CHR 0x22] @ ''0xABC...'' @ [CHR 0x22], resp_Error = None\<rparr>
 \<and> json_unmarshal_string ([CHR 0x22] @ ''0xABC...'' @ [CHR 0x22]) = Inr ''0xABC...''
 \<and> snd (snd (invoke (\<lambda>_ _. ResponseBody ''{\"id\":1,\"jsonrpc\":\"2.0\",\"result\":\"0xABC...\",\"error\":null}'') (NewCCClient ''http://localhost:8080'') \<lparr>sent = [], printed = []\<rparr> (CallCreateAccount ''pw123'')))
     = Return (StringResult ''0xABC...'') None
 \<and> snd (snd (CreateAccount (\<lambda>_ _. ResponseBody ''{\"id\":1,\"jsonrpc\":\"2.0\",\"result\":\"0xABC...\",\"error\":null}'') (NewCCClient ''http://localhost:8080'') \<lparr>sent = [], printed = []\<rparr> ''pw123'')) = Return ''0xABC...'' None"
proof -
  let ?c = "CallCreateAccount ''pw123''"
  let ?resp = "\<lparr>resp_ID = 1, resp_JSONRPC = ''2.0'',
                 resp_Result = [CHR 0x22] @ ''0xABC...'' @ [CHR 0x22], resp_Error = None\<rparr>"
  obtain body where
    b: "json_marshal_rpcRequest (make_request (bound_client (NewCCClient ''http://localhost:8080'') ?c) (method_of ?c) (params_of ?c))
          = Inr body"
    using marshal_succeeds by blast
  have reply: "snd (http_Post (\<lambda>_ _. ResponseBody ''{\"id\":1,\"jsonrpc\":\"2.0\",\"result\":\"0xABC...\",\"error\":null}'') (client (bound_client (NewCCClient ''http://localhost:8080'') ?c)) \<lparr>sent = [], printed = []\<rparr>
                      (url (bound_client (NewCCClient ''http://localhost:8080'') ?c)) ''application/json'' body)
                 = ResponseBody ''{\"id\":1,\"jsonrpc\":\"2.0\",\"result\":\"0xABC...\",\"error\":null}''"
    by (simp add: http_Post_def)
  have env: "json_unmarshal_rpcResponse
               ''{\"id\":1,\"jsonrpc\":\"2.0\",\"result\":\"0xABC...\",\"error\":null}'' = Inr ?resp"
    by (simp add: json_eval)
  have str: "json_unmarshal_string (resp_Result ?resp) = Inr ''0xABC...''"
    by (simp add: json_eval)
  have inv: "snd (snd (invoke (\<lambda>_ _. ResponseBody ''{\"id\":1,\"jsonrpc\":\"2.0\",\"result\":\"0xABC...\",\"error\":null}'') (NewCCClient ''http://localhost:8080'') \<lparr>sent = [], printed = []\<rparr> ?c)) = Return (StringResult ''0xABC...'') None"
    using success_response_is_decoded [OF b reply env _ str, of "[]"] by simp
  then have "snd (snd (CreateAccount (\<lambda>_ _. ResponseBody ''{\"id\":1,\"jsonrpc\":\"2.0\",\"result\":\"0xABC...\",\"error\":null}'') (NewCCClient ''http://localhost:8080'') \<lparr>sent = [], printed = []\<rparr> ''pw123'')) = Return ''0xABC...'' None"
    by (cases "CreateAccount (\<lambda>_ _. ResponseBody ''{\"id\":1,\"jsonrpc\":\"2.0\",\"result\":\"0xABC...\",\"error\":null}'') (NewCCClient ''http://localhost:8080'') \<lparr>sent = [], printed = []\<rparr> ''pw123''" rule: prod_cases3)
       (auto simp: returning_def elim: map_outcome.elims)
  with env str inv show ?thesis by simp
qed

text \<open>
  C5. On every client that was constructed by \<open>NewCCClient\<close>, whatever calls have since been
  made on it, the request envelope that \<open>call\<close> builds for a method name and a parameter list
  has id 1, version \<^verbatim>\<open>2.0\<close>, that method name and those parameters in their order; and the
  body that \<open>call\<close> hands to the HTTP client is the encoding of that envelope.
\<close>

theorem request_envelope_invariant:
  assumes "reachable rpc"
  shows "make_request rpc method params =
           \<lparr>req_ID = 1, req_JSONRPC = ''2.0'', req_Method = method, req_Params = params\<rparr>
       \<and> (\<exists>body. json_marshal_rpcRequest (make_request rpc method params) = Inr body
              \<and> map request_body (sent (fst (call net rpc w method params)))
                   = map request_body (sent w) @ [body])"
proof -
  obtain body where b: "json_marshal_rpcRequest (make_request rpc method params) = Inr body"
    using marshal_succeeds by blast
  have "map request_body (sent (fst (call net rpc w method params))) = map request_body (sent w) @ [body]"
    by (simp add: call_sent [OF b])
  with b reachable_version [OF assms] show ?thesis
    by (simp add: make_request_def)
qed

theorem request_envelope_invariant_witness:
  "reachable (fst (invoke (\<lambda>_ _. ResponseBody ''{\"id\":1,\"jsonrpc\":\"2.0\",\"result\":\"0xABC...\",\"error\":null}'') (NewCCClient ''http://localhost:8080'') \<lparr>sent = [], printed = []\<rparr> (CallLockAccount ''0xABC'' ''tok123'')))
 \<and> make_request (fst (invoke (\<lambda>_ _. ResponseBody ''{\"id\":1,\"jsonrpc\":\"2.0\",\"result\":\"0xABC...\",\"error\":null}'') (NewCCClient ''http://localhost:8080'') \<lparr>sent = [], printed = []\<rparr> (CallLockAccount ''0xABC'' ''tok123'')))
       ''service_run'' [GoString ''svc'', GoStrings (Some [''n1'', ''n2''])]
     = \<lparr>req_ID = 1, req_JSONRPC = ''2.0'', req_Method = ''service_run'',
         req_Params = [GoString ''svc'', GoStrings (Some [''n1'', ''n2''])]\<rparr>"
proof -
  have "reachable (fst (invoke (\<lambda>_ _. ResponseBody ''{\"id\":1,\"jsonrpc\":\"2.0\",\"result\":\"0xABC...\",\"error\":null}'') (NewCCClient ''http://localhost:8080'') \<lparr>sent = [], printed = []\<rparr> (CallLockAccount ''0xABC'' ''tok123'')))"
  proof -
    let ?i = "invoke (\<lambda>_ _. ResponseBody ''{\"id\":1,\"jsonrpc\":\"2.0\",\"result\":\"0xABC...\",\"error\":null}'')
                (NewCCClient ''http://localhost:8080'') \<lparr>sent = [], printed = []\<rparr>
                (CallLockAccount ''0xABC'' ''tok123'')"
    have "?i = (fst ?i, fst (snd ?i), snd (snd ?i))"
      by (simp only: prod.collapse)
    from reachable.invoked [OF reachable.new this] show ?thesis .
  qed
  from this request_envelope_invariant [OF this] show ?thesis by simp
qed

lemma invoke_step:
  assumes "client rpc = BearerClient token" and "invoke net rpc w d = (rpc', w', out)"
  shows "client rpc' = BearerClient (token_after token d)"
    and "map authorization (sent w') =
           map authorization (sent w) @ [Some (''Bearer '' @ token_after token d)]"
  using invoke_parts [of net rpc w d] assms
  by (auto simp: bound_client_def token_after_def authorization_of_def oauth2_NewClient_def
        split: option.splits)

lemma invoke_all_headers:
  assumes "client rpc = BearerClient token" and "invoke_all net rpc w cs = (rpc2, w2, outs)"
  shows "length outs \<le> length cs \<and> (cs \<noteq> [] \<longrightarrow> outs \<noteq> [])
       \<and> ((\<forall>message e. Fatal message e \<notin> set outs) \<longrightarrow> length outs = length cs)
       \<and> map authorization (sent w2) =
           map authorization (sent w) @ take (length outs) (bearer_headers token cs)
       \<and> client rpc2 = BearerClient (foldl token_after token (take (length outs) cs))"
  using assms
proof (induction cs arbitrary: rpc w token rpc2 w2 outs)
  case Nil
  then show ?case by simp
next
  case (Cons d cs)
  obtain rpc' w' out where inv: "invoke net rpc w d = (rpc', w', out)"
    by (cases "invoke net rpc w d") auto
  note st = invoke_step [OF Cons.prems(1) inv]
  show ?case
  proof (cases out)
    case (Fatal message e)
    with Cons.prems(2) inv have "rpc2 = rpc'" "w2 = w'" "outs = [Fatal message e]"
      by simp_all
    with st show ?thesis by simp
  next
    case (Return v err)
    obtain rpc3 w3 outs' where all: "invoke_all net rpc' w' cs = (rpc3, w3, outs')"
      by (cases "invoke_all net rpc' w' cs") auto
    with Cons.prems(2) inv Return have r: "rpc2 = rpc3" "w2 = w3" "outs = Return v err # outs'"
      by simp_all
    from Cons.IH [OF st(1) all] st(2) r show ?thesis by auto
  qed
qed

lemma tokenless_headers:
  assumes "list_all (\<lambda>d. token_of d = None) cs"
  shows "take k (bearer_headers token cs) = replicate (min k (length cs)) (Some (''Bearer '' @ token))
       \<and> foldl token_after token (take k cs) = token"
  using assms
proof (induction cs arbitrary: k)
  case Nil
  show ?case by simp
next
  case (Cons d cs)
  then have d: "token_after token d = token" by (simp add: token_after_def)
  show ?case
  proof (cases k)
    case 0
    then show ?thesis by simp
  next
    case (Suc j)
    with Cons d show ?thesis by simp
  qed
qed

lemma invoke_all_tokenless_client:
  assumes "list_all (\<lambda>d. token_of d = None) cs"
  shows "fst (invoke_all net rpc w cs) = rpc"
  using assms
proof (induction cs arbitrary: w)
  case Nil
  show ?case by simp
next
  case (Cons d cs)
  obtain rpc' w' out where inv: "invoke net rpc w d = (rpc', w', out)"
    by (cases "invoke net rpc w d") auto
  have "rpc' = rpc"
    using invoke_parts(1) [of net rpc w d] inv Cons.prems by (simp add: bound_client_def)
  with inv Cons.IH [of w'] Cons.prems show ?case
    by (cases out) (auto split: prod.splits)
qed

text \<open>
  C9 (as stated, false). The claim is that after an authenticated call every subsequent
  call on the client is issued with the token supplied earlier. A subsequent call of a
  wrapper that takes a token rebinds the transport to its own token: after
  \<open>LockAccount\<close> with \<^verbatim>\<open>tok1\<close>, the request of \<open>ListNodeImages\<close> with \<^verbatim>\<open>tok2\<close> carries \<^verbatim>\<open>tok2\<close>, and
  the transport of \<^verbatim>\<open>tok1\<close> is no longer bound.
\<close>

theorem later_token_replaces_earlier:
  "map authorization (sent (fst (snd (invoke_all (\<lambda>_ _. ResponseBody ''{\"id\":1,\"jsonrpc\":\"2.0\",\"result\":\"0xABC...\",\"error\":null}'') (NewCCClient ''http://localhost:8080'') \<lparr>sent = [], printed = []\<rparr>
      [CallLockAccount ''0xABC'' ''tok1'', CallListNodeImages ''node1'' ''tok2'']))))
     = [Some ''Bearer tok1'', Some ''Bearer tok2'']
 \<and> client (fst (invoke_all (\<lambda>_ _. ResponseBody ''{\"id\":1,\"jsonrpc\":\"2.0\",\"result\":\"0xABC...\",\"error\":null}'') (NewCCClient ''http://localhost:8080'') \<lparr>sent = [], printed = []\<rparr>
      [CallLockAccount ''0xABC'' ''tok1'', CallListNodeImages ''node1'' ''tok2'']))
     = BearerClient ''tok2''"
  by (simp add: LockAccount_def ListNodeImages_def error_result_def decode_string_result_def
        returning_def fatalIfErr_def unErr_of_def var_of_def call_eval json_eval)

text \<open>
  C9 (amended). After a call of a wrapper that takes a token (\<open>LockAccount\<close>,
  \<open>LoadImageToNode\<close>, \<open>ListNodeImages\<close>, \<open>ListNodeContainers\<close>), whose own request carries that
  token, the client is bound to the bearer transport of the token. Every call made on the
  client from then on hands exactly one request to the HTTP client, and that request carries
  a bearer token: the token most recently supplied, which for a wrapper that takes a token
  is its own and for any other wrapper is the one bound before. So as long as the calls
  that follow take no token, each of them is issued with the token of the authenticated
  call and the client stays as that call left it. The client is a bearer client after every
  call, never the default client again. (\<open>outs\<close> holds one outcome for each call that ran:
  all of them, unless one ended the process.)
\<close>

theorem bearer_token_persists:
  assumes "token_of c = Some token"
    and "invoke net rpc w c = (rpc1, w1, out)"
    and "invoke_all net rpc1 w1 cs = (rpc2, w2, outs)"
  shows "client rpc1 = BearerClient token
       \<and> map authorization (sent w1) = map authorization (sent w) @ [Some (''Bearer '' @ token)]
       \<and> length outs \<le> length cs \<and> (cs \<noteq> [] \<longrightarrow> outs \<noteq> [])
       \<and> ((\<forall>message e. Fatal message e \<notin> set outs) \<longrightarrow> length outs = length cs)
       \<and> map authorization (sent w2) =
           map authorization (sent w1) @ take (length outs) (bearer_headers token cs)
       \<and> client rpc2 = BearerClient (foldl token_after token (take (length outs) cs))
       \<and> (list_all (\<lambda>d. token_of d = None) cs \<longrightarrow>
            rpc2 = rpc1
            \<and> map authorization (sent w2) =
                map authorization (sent w1) @ replicate (length outs) (Some (''Bearer '' @ token)))"
proof -
  have c1: "client rpc1 = BearerClient token"
    using invoke_parts(1) [of net rpc w c] assms(1,2)
    by (simp add: bound_client_def oauth2_NewClient_def)
  have s1: "map authorization (sent w1) = map authorization (sent w) @ [Some (''Bearer '' @ token)]"
    using invoke_parts(2) [of net rpc w c] assms(1,2)
    by (simp add: bound_client_def oauth2_NewClient_def authorization_of_def)
  note h = invoke_all_headers [OF c1 assms(3)]
  have "rpc2 = rpc1
      \<and> map authorization (sent w2) =
          map authorization (sent w1) @ replicate (length outs) (Some (''Bearer '' @ token))"
    if t: "list_all (\<lambda>d. token_of d = None) cs"
  proof -
    have "rpc2 = rpc1"
      using invoke_all_tokenless_client [OF t, of net rpc1 w1] assms(3) by simp
    moreover have "take (length outs) (bearer_headers token cs)
                     = replicate (length outs) (Some (''Bearer '' @ token))"
      using tokenless_headers [OF t, of "length outs" token] h by (simp add: min_def)
    ultimately show ?thesis using h by simp
  qed
  with c1 s1 h show ?thesis by blast
qed

theorem bearer_token_persists_witness:
  "token_of (CallLockAccount ''0xABC'' ''tok123'') = Some ''tok123''
 \<and> length (snd (snd (invoke_all (\<lambda>_ _. ResponseBody ''{\"id\":1,\"jsonrpc\":\"2.0\",\"result\":\"0xABC...\",\"error\":null}'')
       (fst (invoke (\<lambda>_ _. ResponseBody ''{\"id\":1,\"jsonrpc\":\"2.0\",\"result\":\"0xABC...\",\"error\":null}'') (NewCCClient ''http://localhost:8080'') \<lparr>sent = [], printed = []\<rparr> (CallLockAccount ''0xABC'' ''tok123'')))
       (fst (snd (invoke (\<lambda>_ _. ResponseBody ''{\"id\":1,\"jsonrpc\":\"2.0\",\"result\":\"0xABC...\",\"error\":null}'') (NewCCClient ''http://localhost:8080'') \<lparr>sent = [], printed = []\<rparr> (CallLockAccount ''0xABC'' ''tok123''))))
       [CallCreateAccount ''pw123'', CallListNodeImages ''node1'' ''tok456'',
        CallDeleteAccount ''0xABC'' ''pw123'']))) = 3
 \<and> map authorization (sent (fst (snd (invoke_all (\<lambda>_ _. ResponseBody ''{\"id\":1,\"jsonrpc\":\"2.0\",\"result\":\"0xABC...\",\"error\":null}'')
       (fst (invoke (\<lambda>_ _. ResponseBody ''{\"id\":1,\"jsonrpc\":\"2.0\",\"result\":\"0xABC...\",\"error\":null}'') (NewCCClient ''http://localhost:8080'') \<lparr>sent = [], printed = []\<rparr> (CallLockAccount ''0xABC'' ''tok123'')))
       (fst (snd (invoke (\<lambda>_ _. ResponseBody ''{\"id\":1,\"jsonrpc\":\"2.0\",\"result\":\"0xABC...\",\"error\":null}'') (NewCCClient ''http://localhost:8080'') \<lparr>sent = [], printed = []\<rparr> (CallLockAccount ''0xABC'' ''tok123''))))
       [CallCreateAccount ''pw123'', CallListNodeImages ''node1'' ''tok456'',
        CallDeleteAccount ''0xABC'' ''pw123'']))))
     = [Some ''Bearer tok123'', Some ''Bearer tok123'', Some ''Bearer tok456'', Some ''Bearer tok456'']
 \<and> client (fst (invoke_all (\<lambda>_ _. ResponseBody ''{\"id\":1,\"jsonrpc\":\"2.0\",\"result\":\"0xABC...\",\"error\":null}'')
       (fst (invoke (\<lambda>_ _. ResponseBody ''{\"id\":1,\"jsonrpc\":\"2.0\",\"result\":\"0xABC...\",\"error\":null}'') (NewCCClient ''http://localhost:8080'') \<lparr>sent = [], printed = []\<rparr> (CallLockAccount ''0xABC'' ''tok123'')))
       (fst (snd (invoke (\<lambda>_ _. ResponseBody ''{\"id\":1,\"jsonrpc\":\"2.0\",\"result\":\"0xABC...\",\"error\":null}'') (NewCCClient ''http://localhost:8080'') \<lparr>sent = [], printed = []\<rparr> (CallLockAccount ''0xABC'' ''tok123''))))
       [CallCreateAccount ''pw123'', CallListNodeImages ''node1'' ''tok456'',
        CallDeleteAccount ''0xABC'' ''pw123''])) = BearerClient ''tok456''"
proof -
  let ?i = "invoke (\<lambda>_ _. ResponseBody ''{\"id\":1,\"jsonrpc\":\"2.0\",\"result\":\"0xABC...\",\"error\":null}'') (NewCCClient ''http://localhost:8080'') \<lparr>sent = [], printed = []\<rparr> (CallLockAccount ''0xABC'' ''tok123'')"
  let ?cs = "[CallCreateAccount ''pw123'', CallListNodeImages ''node1'' ''tok456'',
              CallDeleteAccount ''0xABC'' ''pw123'']"
  let ?a = "invoke_all (\<lambda>_ _. ResponseBody ''{\"id\":1,\"jsonrpc\":\"2.0\",\"result\":\"0xABC...\",\"error\":null}'') (fst ?i) (fst (snd ?i)) ?cs"
  have t: "token_of (CallLockAccount ''0xABC'' ''tok123'') = Some ''tok123''" by simp
  have i: "?i = (fst ?i, fst (snd ?i), snd (snd ?i))" by (simp only: prod.collapse)
  have a: "?a = (fst ?a, fst (snd ?a), snd (snd ?a))" by (simp only: prod.collapse)
  have n: "length (snd (snd ?a)) = 3"
    by (simp add: LockAccount_def CreateAccount_def ListNodeImages_def DeleteAccount_def
          error_result_def decode_string_result_def returning_def fatalIfErr_def unErr_of_def
          var_of_def call_eval json_eval)
  have w: "sent \<lparr>sent = [], printed = []\<rparr> = []" by simp
  from bearer_token_persists [OF t i a] have
    "map authorization (sent (fst (snd ?i))) = map authorization (sent \<lparr>sent = [], printed = []\<rparr>) @ [Some (''Bearer '' @ ''tok123'')]"
    "map authorization (sent (fst (snd ?a))) =
       map authorization (sent (fst (snd ?i))) @ take (length (snd (snd ?a))) (bearer_headers ''tok123'' ?cs)"
    "client (fst ?a) = BearerClient (foldl token_after ''tok123'' (take (length (snd (snd ?a))) ?cs))"
    by blast+
  then have
    "map authorization (sent (fst (snd ?a))) =
       [Some ''Bearer tok123'', Some ''Bearer tok123'', Some ''Bearer tok456'', Some ''Bearer tok456'']"
    "client (fst ?a) = BearerClient ''tok456''"
    unfolding n w by (simp_all add: token_after_def)
  with t n show ?thesis by (simp only: simp_thms)
qed

text \<open>
  C7 (observed behaviour). The claim is that a body that is not well-formed JSON makes
  \<open>call\<close> return the decoding error and that no wrapper crashes its caller on it. \<open>call\<close> does
  return the error, with a nil result. \<open>ListAccounts\<close> then unmarshals the nil result before
  it looks at the error; that fails, and \<open>fatalIfErr\<close> ends the process.
\<close>

theorem ListAccounts_malformed_body_aborts:
  "snd (call (\<lambda>_ _. ResponseBody ''<html>Bad Gateway</html>'')
      (NewCCClient ''http://localhost:8080'') \<lparr>sent = [], printed = []\<rparr>
      ''accounts_listAccounts'' [])
   = ([], Some SyntaxError)
 \<and> snd (snd (ListAccounts (\<lambda>_ _. ResponseBody ''<html>Bad Gateway</html>'')
      (NewCCClient ''http://localhost:8080'') \<lparr>sent = [], printed = []\<rparr>))
   = Fatal (not_of_type ''[]string'') SyntaxError"
  by (simp add: ListAccounts_def decode_strings_result_def fatalIfErr_def unErr_of_def
        call_eval json_eval)

subsection \<open>Claims about the upload client\<close>

text \<open>
  C8. When the path does not name a file that can be read to the end, \<open>UploadFile\<close> returns
  an empty body and the error of opening or reading the file, and hands no request to the
  HTTP client.
\<close>

theorem UploadFile_unreadable_no_post:
  assumes "\<forall>content. fs filename \<noteq> Readable content"
  shows "\<exists>c' w' e. UploadFile mp fs net c w filename token = (c', w', [], Some e)
            \<and> sent w' = sent w
            \<and> (fs filename = OpenFails e \<or> fs filename = CopyFails e)"
  using assms by (cases "fs filename") (simp_all add: UploadFile_def Let_def)

theorem UploadFile_unreadable_no_post_witness:
  "(\<forall>content. (\<lambda>_. OpenFails (FileError ''no such file or directory'')) ''/tmp/missing.tar''
       \<noteq> Readable content)
 \<and> (\<exists>c' w' e.
       UploadFile \<lparr>FormDataContentType = ''multipart/form-data; boundary=b1'', form_file = (\<lambda>n c. c)\<rparr>
         (\<lambda>_. OpenFails (FileError ''no such file or directory''))
         (\<lambda>_ _. ResponseBody ''ok'') (NewUploadClient ''http://localhost:8085/upload'')
         \<lparr>sent = [], printed = []\<rparr> ''/tmp/missing.tar'' ''tok123''
       = (c', w', [], Some e) \<and> sent w' = [] \<and> e = FileError ''no such file or directory'')"
  using UploadFile_unreadable_no_post
    [of "\<lambda>_. OpenFails (FileError ''no such file or directory'')" "''/tmp/missing.tar''"
        "\<lparr>FormDataContentType = ''multipart/form-data; boundary=b1'', form_file = (\<lambda>n c. c)\<rparr>"
        "\<lambda>_ _. ResponseBody ''ok''" "NewUploadClient ''http://localhost:8085/upload''"
        "\<lparr>sent = [], printed = []\<rparr>" "''tok123''"]
  by auto

text \<open>
  C10. \<open>UploadFile\<close> rebinds the client to the bearer transport of its token before it opens
  the file: the client it leaves behind holds that transport on every exit, and when the
  file cannot be opened it returns that error with the client already rebound.
\<close>

theorem UploadFile_rebinds_before_open:
  "up_client (fst (UploadFile mp fs net c w filename token)) = BearerClient token
   \<and> (fs filename = OpenFails e \<longrightarrow>
        UploadFile mp fs net c w filename token =
          (c\<lparr>up_client := BearerClient token\<rparr>,
           w\<lparr>printed := printed w @ [''error opening file'']\<rparr>, [], Some e))"
  by (cases "fs filename")
     (auto simp: UploadFile_def Let_def oauth2_NewClient_def http_Post_def
        split: prod.splits http_reply.splits)

theorem UploadFile_rebinds_before_open_witness:
  "up_client (NewUploadClient ''http://localhost:8085/upload'') = DefaultClient
 \<and> UploadFile \<lparr>FormDataContentType = ''multipart/form-data; boundary=b1'', form_file = (\<lambda>n c. c)\<rparr>
       (\<lambda>_. OpenFails (FileError ''no such file or directory''))
       (\<lambda>_ _. ResponseBody ''ok'') (NewUploadClient ''http://localhost:8085/upload'')
       \<lparr>sent = [], printed = []\<rparr> ''/tmp/missing.tar'' ''tok123''
     = (\<lparr>up_url = ''http://localhost:8085/upload'', up_client = BearerClient ''tok123'', up_Debug = False\<rparr>,
        \<lparr>sent = [], printed = [''error opening file'']\<rparr>, [],
        Some (FileError ''no such file or directory''))"
  using UploadFile_rebinds_before_open
    [of "\<lparr>FormDataContentType = ''multipart/form-data; boundary=b1'', form_file = (\<lambda>n c. c)\<rparr>"
        "\<lambda>_. OpenFails (FileError ''no such file or directory'')"
        "\<lambda>_ _. ResponseBody ''ok''" "NewUploadClient ''http://localhost:8085/upload''"
        "\<lparr>sent = [], printed = []\<rparr>" "''/tmp/missing.tar''" "''tok123''" "FileError ''no such file or directory''"]
  by (simp add: NewUploadClient_def)

subsection \<open>The round trip of a request\<close>

text \<open>
  From here on the equations of \<open>digits\<close> and of \<open>parse_value\<close> are unfolded by hand only.
\<close>

declare digits.simps [simp del]

lemma utf8_seq_len_cases:
  "utf8_seq_len s = 0 \<or> utf8_seq_len s = 2 \<or> utf8_seq_len s = 3 \<or> utf8_seq_len s = 4"
  by (simp add: utf8_seq_len_def)

lemma seq2_length: "seq2 s \<Longrightarrow> 2 \<le> length s"
  by (auto simp: seq2_def split: list.splits)

lemma seq3_length: "seq3 s \<Longrightarrow> 3 \<le> length s"
  by (auto simp: seq3_def split: list.splits)

lemma seq4_length: "seq4 s \<Longrightarrow> 4 \<le> length s"
  by (auto simp: seq4_def split: list.splits)

lemma utf8_seq_len_le: "utf8_seq_len s \<le> length s"
  using seq2_length seq3_length seq4_length by (auto simp: utf8_seq_len_def)

lemma seq2_prefix: "seq2 s = seq2 (take 2 s)"
  by (cases s; cases "tl s") (auto simp: seq2_def)

lemma seq3_prefix: "seq3 s = seq3 (take 3 s)"
  by (cases s; cases "tl s"; cases "tl (tl s)") (auto simp: seq3_def)

lemma seq4_prefix: "seq4 s = seq4 (take 4 s)"
  by (cases s; cases "tl s"; cases "tl (tl s)"; cases "tl (tl (tl s))") (auto simp: seq4_def)

lemma utf8_seq_len_prefix:
  assumes "take 4 s = take 4 t"
  shows "utf8_seq_len s = utf8_seq_len t"
proof -
  have "take 2 (take 4 s) = take 2 (take 4 t)" "take 3 (take 4 s) = take 3 (take 4 t)"
    using assms by simp_all
  then have "take 2 s = take 2 t" "take 3 s = take 3 t" by simp_all
  then show ?thesis
    using assms seq2_prefix [of s] seq2_prefix [of t] seq3_prefix [of s] seq3_prefix [of t]
      seq4_prefix [of s] seq4_prefix [of t]
    by (simp add: utf8_seq_len_def)
qed

lemma take_seq_prefix:
  assumes "seq2 s \<or> seq3 s \<or> seq4 s"
  shows "utf8_seq_len (take (utf8_seq_len s) s @ x) = utf8_seq_len s"
proof -
  have 2: "seq2 s \<Longrightarrow> seq2 (take 2 s @ x)"
    using seq2_prefix [of "take 2 s @ x"] seq2_prefix [of s] seq2_length [of s] by simp
  have 3: "seq3 s \<Longrightarrow> seq3 (take 3 s @ x) \<and> seq2 (take 3 s @ x) = seq2 s"
    using seq3_prefix [of "take 3 s @ x"] seq3_prefix [of s] seq3_length [of s]
      seq2_prefix [of "take 3 s @ x"] seq2_prefix [of s] by simp
  have 4: "seq4 s \<Longrightarrow> seq4 (take 4 s @ x) \<and> seq2 (take 4 s @ x) = seq2 s \<and> seq3 (take 4 s @ x) = seq3 s"
    using seq4_prefix [of "take 4 s @ x"] seq4_prefix [of s] seq4_length [of s]
      seq2_prefix [of "take 4 s @ x"] seq2_prefix [of s]
      seq3_prefix [of "take 4 s @ x"] seq3_prefix [of s] by simp
  show ?thesis
    using assms 2 3 4 by (auto simp: utf8_seq_len_def)
qed

lemma coerce_valid: "valid_utf8 s \<Longrightarrow> coerce_utf8 s = s"
proof (induction s rule: length_induct)
  case (1 s)
  show ?case
  proof (cases s)
    case Nil
    then show ?thesis by simp
  next
    case (Cons c cs)
    show ?thesis
    proof (cases "byte c < 0x80")
      case True
      with 1 Cons show ?thesis by simp
    next
      case False
      let ?n = "utf8_seq_len (c # cs)"
      from 1(2) Cons False have n: "?n \<noteq> 0" and v: "valid_utf8 (drop (?n - 1) cs)"
        by (simp_all add: Let_def)
      have "coerce_utf8 (drop (?n - 1) cs) = drop (?n - 1) cs"
        using 1(1) v Cons by simp
      moreover have "take ?n (c # cs) @ drop (?n - 1) cs = c # cs"
        using n by (cases ?n) simp_all
      ultimately show ?thesis
        using False n Cons by (simp add: Let_def)
    qed
  qed
qed

lemma hex_val_hex_digit: "d < 16 \<Longrightarrow> hex_val (hex_digit d) = Some d"
proof -
  assume "d < 16"
  then have "d = 0 \<or> d = 1 \<or> d = 2 \<or> d = 3 \<or> d = 4 \<or> d = 5 \<or> d = 6 \<or> d = 7 \<or> d = 8
      \<or> d = 9 \<or> d = 10 \<or> d = 11 \<or> d = 12 \<or> d = 13 \<or> d = 14 \<or> d = 15"
    by arith
  then show ?thesis
    by (elim disjE) (simp_all add: hex_digit_def hex_val_def in_range_def byte_def)
qed

lemma encode_rune_ascii: "byte c < 0x80 \<Longrightarrow> encode_rune (byte c) = [c]"
  by (simp add: encode_rune_def byte_def)

lemma char_of_bytes:
  "char_of (0xEF::nat) = CHR 0xEF" "char_of (0xBF::nat) = CHR 0xBF" "char_of (0xBD::nat) = CHR 0xBD"
  "char_of (0xE2::nat) = CHR 0xE2" "char_of (0x80::nat) = CHR 0x80" "char_of (0xA8::nat) = CHR 0xA8"
  "char_of (0xA9::nat) = CHR 0xA9"
  by code_simp+

lemma encode_rune_special:
  "encode_rune 0xFFFD = replacement_char"
  "encode_rune 0x2028 = [CHR 0xE2, CHR 0x80, CHR 0xA8]"
  "encode_rune 0x2029 = [CHR 0xE2, CHR 0x80, CHR 0xA9]"
  by (simp_all add: encode_rune_def replacement_char_def char_of_bytes)

lemma high_not_special:
  "\<not> byte c < 0x80 \<Longrightarrow> c \<noteq> dquote \<and> c \<noteq> backslash \<and> \<not> byte c < 0x20"
  by (auto simp: dquote_def backslash_def byte_def)

lemma prepend_Some [simp]: "prepend pre (Some (s, rest)) = Some (pre @ s, rest)"
  by (simp add: prepend_def)

lemma getu4_00:
  assumes "b < 0x80"
  shows "getu4 (CHR ''0'' # CHR ''0'' # hex_digit (b div 16) # hex_digit (b mod 16) # t) = Some b"
proof -
  have d: "b div 16 < 16" and m: "b mod 16 < 16"
    using assms by simp_all
  have z: "hex_val (CHR ''0'') = Some 0"
    by (simp add: hex_val_def in_range_def byte_def)
  show ?thesis
    by (simp add: getu4_def z hex_val_hex_digit [OF d] hex_val_hex_digit [OF m])
qed

lemma scan_escape_byte:
  assumes "byte c < 0x80" "\<not> html_safe c"
  shows "scan_string (escape_byte c @ t) = prepend [c] (scan_string t)"
proof -
  consider (q) "c = backslash \<or> c = dquote"
    | (b) "c = CHR 0x08" | (f) "c = CHR 0x0C" | (n) "c = CHR 0x0A" | (r) "c = CHR 0x0D"
    | (t) "c = CHR 0x09"
    | (u) "c \<noteq> backslash" "c \<noteq> dquote" "c \<noteq> CHR 0x08" "c \<noteq> CHR 0x0C" "c \<noteq> CHR 0x0A"
          "c \<noteq> CHR 0x0D" "c \<noteq> CHR 0x09"
    by blast
  then show ?thesis
  proof cases
    case q
    then show ?thesis
      by (auto simp: escape_byte_def unescape_char_def backslash_def dquote_def)
  next
    case b
    then show ?thesis
      by (simp add: escape_byte_def unescape_char_def backslash_def dquote_def)
  next
    case f
    then show ?thesis
      by (simp add: escape_byte_def unescape_char_def backslash_def dquote_def)
  next
    case n
    then show ?thesis
      by (simp add: escape_byte_def unescape_char_def backslash_def dquote_def)
  next
    case r
    then show ?thesis
      by (simp add: escape_byte_def unescape_char_def backslash_def dquote_def)
  next
    case t
    then show ?thesis
      by (simp add: escape_byte_def unescape_char_def backslash_def dquote_def)
  next
    case u
    have e: "escape_byte c = [backslash, CHR ''u'', CHR ''0'', CHR ''0'',
               hex_digit (byte c div 16), hex_digit (byte c mod 16)]"
      using u by (simp add: escape_byte_def)
    have bs: "backslash \<noteq> dquote" by (simp add: backslash_def dquote_def)
    show ?thesis
      unfolding e using assms(1) bs
      by (simp add: getu4_00 encode_rune_ascii)
  qed
qed

lemma scan_appendString:
  "scan_string (appendString s @ dquote # rest) = Some (coerce_utf8 s, rest)"
proof (induction s rule: length_induct)
  case (1 s)
  show ?case
  proof (cases s)
    case Nil
    then show ?thesis by simp
  next
    case (Cons c cs)
    have IH: "scan_string (appendString t @ dquote # rest) = Some (coerce_utf8 t, rest)"
      if "length t \<le> length cs" for t
      using 1 that Cons by simp
    let ?n = "utf8_seq_len (c # cs)"
    have bs: "backslash \<noteq> dquote" by (simp add: backslash_def dquote_def)
    consider (safe) "byte c < 0x80" "html_safe c"
      | (esc) "byte c < 0x80" "\<not> html_safe c"
      | (bad) "\<not> byte c < 0x80" "?n = 0"
      | (ls) "\<not> byte c < 0x80" "?n \<noteq> 0" "take ?n (c # cs) = [CHR 0xE2, CHR 0x80, CHR 0xA8]"
      | (ps) "\<not> byte c < 0x80" "?n \<noteq> 0" "take ?n (c # cs) = [CHR 0xE2, CHR 0x80, CHR 0xA9]"
      | (raw) "\<not> byte c < 0x80" "?n \<noteq> 0" "take ?n (c # cs) \<noteq> [CHR 0xE2, CHR 0x80, CHR 0xA8]"
              "take ?n (c # cs) \<noteq> [CHR 0xE2, CHR 0x80, CHR 0xA9]"
      by blast
    then show ?thesis
    proof cases
      case safe
      then show ?thesis
        using Cons IH [of cs] by (simp add: html_safe_def)
    next
      case esc
      then show ?thesis
        using Cons IH [of cs] by (simp add: scan_escape_byte)
    next
      case bad
      have "getu4 (''fffd'' @ t) = Some 0xFFFD" for t
        by (simp add: getu4_def hex_val_def in_range_def byte_def)
      then show ?thesis
        using bad Cons IH [of cs] bs
        by (simp add: encode_rune_special)
    next
      case ls
      have g: "getu4 (''2028'' @ t) = Some 0x2028" for t
        by (simp add: getu4_def hex_val_def in_range_def byte_def)
      have "length (take ?n (c # cs)) = 3" using ls(3) by simp
      then have n3: "?n = 3" using utf8_seq_len_le [of "c # cs"] by simp
      show ?thesis
        using ls n3 Cons IH [of "drop 2 cs"] bs g
        by (simp add: encode_rune_special)
    next
      case ps
      have g: "getu4 (''2029'' @ t) = Some 0x2029" for t
        by (simp add: getu4_def hex_val_def in_range_def byte_def)
      have "length (take ?n (c # cs)) = 3" using ps(3) by simp
      then have n3: "?n = 3" using utf8_seq_len_le [of "c # cs"] by simp
      show ?thesis
        using ps n3 Cons IH [of "drop 2 cs"] bs g
        by (simp add: encode_rune_special)
    next
      case raw
      let ?y = "appendString (drop (?n - 1) cs) @ dquote # rest"
      have len: "?n \<le> length (c # cs)" by (rule utf8_seq_len_le)
      have seq: "seq2 (c # cs) \<or> seq3 (c # cs) \<or> seq4 (c # cs)"
        using raw(2) by (auto simp: utf8_seq_len_def split: if_splits)
      have tk: "take ?n (c # cs) = c # take (?n - 1) cs"
        using raw(2) by (cases ?n) simp_all
      have n': "utf8_seq_len (c # take (?n - 1) cs @ ?y) = ?n"
        using take_seq_prefix [OF seq, of ?y] tk by simp
      have a: "appendString (c # cs) = take ?n (c # cs) @ appendString (drop (?n - 1) cs)"
        using raw by (simp add: Let_def)
      have "scan_string (c # take (?n - 1) cs @ ?y)
              = prepend (take ?n (c # take (?n - 1) cs @ ?y))
                  (scan_string (drop (?n - 1) (take (?n - 1) cs @ ?y)))"
        using raw(1,2) high_not_special [OF raw(1)] n'
        by (simp add: Let_def)
      also have "take ?n (c # take (?n - 1) cs @ ?y) = take ?n (c # cs)"
        using len raw(2) by (cases ?n) simp_all
      also have "drop (?n - 1) (take (?n - 1) cs @ ?y) = ?y"
        using len by simp
      also have "scan_string ?y = Some (coerce_utf8 (drop (?n - 1) cs), rest)"
        by (rule IH) simp
      finally show ?thesis
        using raw(1,2) Cons a tk by (simp add: Let_def)
    qed
  qed
qed

lemma scan_quote:
  "scan_string (tl (quote s) @ rest) = Some (coerce_utf8 s, rest)"
  by (simp add: quote_def scan_appendString)

lemma digit_char_is_digit: "d < 10 \<Longrightarrow> is_digit (digit_char d) \<and> (digit_char d = CHR ''0'' \<longleftrightarrow> d = 0)"
proof -
  assume "d < 10"
  then have "d = 0 \<or> d = 1 \<or> d = 2 \<or> d = 3 \<or> d = 4 \<or> d = 5 \<or> d = 6 \<or> d = 7 \<or> d = 8 \<or> d = 9"
    by arith
  then show ?thesis
    by (elim disjE) (simp_all add: digit_char_def is_digit_def in_range_def byte_def)
qed

lemma digits_ne: "digits n \<noteq> []"
  by (subst digits.simps) simp

lemma digits_all: "list_all is_digit (digits n)"
proof (induction n rule: digits.induct)
  case (1 n)
  show ?case
  proof (cases "n < 10")
    case True
    then show ?thesis
      by (subst digits.simps) (simp add: digit_char_is_digit)
  next
    case False
    with 1 show ?thesis
      by (subst digits.simps) (simp add: digit_char_is_digit)
  qed
qed

lemma digits_hd: "hd (digits n) = CHR ''0'' \<Longrightarrow> digits n = ''0''"
proof (induction n rule: digits.induct)
  case (1 n)
  show ?case
  proof (cases "n < 10")
    case True
    with 1(2) have "digit_char n = CHR ''0''"
      by (subst (asm) digits.simps) simp
    with True have "n = 0" using digit_char_is_digit by blast
    then show ?thesis
      by (subst digits.simps) (simp add: digit_char_def)
  next
    case False
    have "hd (digits n) = hd (digits (n div 10))"
      using False digits_ne [of "n div 10"] by (subst digits.simps) simp
    with 1 False have "digits (n div 10) = ''0''" by simp
    moreover have "digits (n div 10) \<noteq> ''0''"
    proof (cases "n div 10 < 10")
      case True
      from False have "n div 10 \<noteq> 0" by simp
      with True show ?thesis
        using digit_char_is_digit [of "n div 10"]
        by (subst digits.simps) simp
    next
      case False
      then show ?thesis
        using digits_ne [of "n div 10 div 10"]
        by (subst digits.simps) simp
    qed
    ultimately show ?thesis by simp
  qed
qed

lemma ends_value_facts:
  "ends_value c \<Longrightarrow> \<not> is_digit c \<and> c \<noteq> CHR ''.'' \<and> c \<noteq> CHR ''e'' \<and> c \<noteq> CHR ''E'' \<and> \<not> is_space c"
  by (auto simp: ends_value_def is_digit_def in_range_def byte_def is_space_def)

lemma int_part_digits:
  assumes "ends_value c"
  shows "int_part (digits n @ c # r) = Some (digits n, c # r)"
proof -
  obtain d ds where d: "digits n = d # ds"
    using digits_ne [of n] by (cases "digits n") auto
  have all: "\<And>x. x \<in> set (digits n) \<Longrightarrow> is_digit x"
    using digits_all [of n] by (simp add: list_all_iff)
  have nd: "\<not> is_digit c" using assms ends_value_facts by blast
  show ?thesis
  proof (cases "d = CHR ''0''")
    case True
    then have "digits n = ''0''" using digits_hd [of n] d by simp
    then show ?thesis by (simp add: int_part_def)
  next
    case False
    have "takeWhile is_digit (digits n @ c # r) = digits n"
      using all nd by (simp add: takeWhile_append2)
    moreover have "dropWhile is_digit (digits n @ c # r) = c # r"
      using all nd by (simp add: dropWhile_append2)
    ultimately show ?thesis
      using d False by (simp add: int_part_def scan_digits_def)
  qed
qed

lemma scan_number_itoa:
  assumes "ends_value c"
  shows "scan_number (itoa i @ c # r) = Some (itoa i, c # r)"
proof -
  have f: "frac_part (c # r) = Some ([], c # r)" "exp_part (c # r) = Some ([], c # r)"
    using ends_value_facts [OF assms] by (simp_all add: frac_part_def exp_part_def)
  obtain d ds where d: "digits (nat i) = d # ds"
    using digits_ne [of "nat i"] by (cases "digits (nat i)") auto
  have "is_digit d" using digits_all [of "nat i"] d by simp
  then have dm: "d \<noteq> CHR ''-''" by (auto simp: is_digit_def in_range_def byte_def)
  show ?thesis
  proof (cases "i < 0")
    case True
    then show ?thesis
      using int_part_digits [OF assms, of "nat (- i)" r] f
      by (simp add: itoa_def scan_number_def)
  next
    case False
    then show ?thesis
      using int_part_digits [OF assms, of "nat i" r] f d dm
      by (simp add: itoa_def scan_number_def)
  qed
qed

lemma itoa_head:
  "\<exists>x xs. itoa i = x # xs \<and> (x = CHR ''-'' \<or> is_digit x)"
proof (cases "i < 0")
  case True
  then show ?thesis by (simp add: itoa_def)
next
  case False
  obtain d ds where d: "digits (nat i) = d # ds"
    using digits_ne [of "nat i"] by (cases "digits (nat i)") auto
  have "is_digit d" using digits_all [of "nat i"] d by simp
  with d False show ?thesis by (simp add: itoa_def)
qed

lemma head_not_structural:
  "x = CHR ''-'' \<or> is_digit x \<Longrightarrow> x \<noteq> CHR ''{'' \<and> x \<noteq> CHR ''['' \<and> x \<noteq> dquote \<and> \<not> is_space x \<and> x \<noteq> CHR '']''"
  by (auto simp: is_digit_def in_range_def byte_def dquote_def is_space_def)

lemma parse_value_itoa:
  assumes "ends_value c"
  shows "parse_value (Suc n) (itoa i @ c # r) = Some (JNumber (itoa i), c # r)"
proof -
  obtain x xs where x: "itoa i = x # xs" "x = CHR ''-'' \<or> is_digit x"
    using itoa_head by blast
  have "scan_number (x # xs @ c # r) = Some (x # xs, c # r)"
    using scan_number_itoa [OF assms, of i r] x(1) by simp
  then show ?thesis
    using x head_not_structural [OF x(2)] by (auto simp: parse_value.simps)
qed

lemma parse_value_quote:
  "parse_value (Suc n) (quote s @ t) = Some (JString (coerce_utf8 s), t)"
proof -
  have "dquote \<noteq> CHR ''{''" "dquote \<noteq> CHR ''[''" by (simp_all add: dquote_def)
  then show ?thesis
    by (simp add: parse_value.simps quote_def scan_appendString)
qed

declare parse_value.simps(2) [simp del]

lemma quote_head: "quote s = dquote # appendString s @ [dquote]"
  by (simp add: quote_def)

lemma skip_ws_quote [simp]: "skip_ws (quote s @ t) = quote s @ t"
  by (simp add: quote_def skip_ws_def is_space_def dquote_def)

lemma skip_ws_ends [simp]: "ends_value c \<Longrightarrow> skip_ws (c # t) = c # t"
  using ends_value_facts [of c] by (simp add: skip_ws_def)

lemma length_quote: "2 \<le> length (quote s)"
  by (simp add: quote_def)

lemma parse_elems_strings:
  assumes "xs \<noteq> []" "list_all valid_utf8 xs" "length (join_comma (map quote xs)) < n"
  shows "parse_elems n (join_comma (map quote xs) @ CHR '']'' # rest) = Some (map JString xs, rest)"
  using assms
proof (induction xs arbitrary: n rule: list_nonempty_induct)
  case (single x)
  then obtain k where n: "n = Suc (Suc k)"
    using length_quote [of x] by (cases n; cases "n - 1") auto
  have e: "ends_value (CHR '']'')" by (simp add: ends_value_def)
  show ?case
    using single e unfolding n
    by (simp add: parse_value_quote coerce_valid)
next
  case (cons x xs)
  obtain y ys where xs: "xs = y # ys" using cons.hyps(1) by (cases xs) auto
  have j: "join_comma (map quote (x # xs)) = quote x @ CHR '','' # join_comma (map quote xs)"
    by (simp add: xs)
  from cons.prems(2) obtain k where n: "n = Suc (Suc k)" and k: "length (join_comma (map quote xs)) < Suc k"
    using length_quote [of x] unfolding j by (cases n; cases "n - 1") auto
  have e: "ends_value (CHR '','')" by (simp add: ends_value_def)
  have sk: "skip_ws (join_comma (map quote xs) @ t) = join_comma (map quote xs) @ t" for t
    by (cases ys) (simp_all add: xs)
  have "parse_elems (Suc k) (join_comma (map quote xs) @ CHR '']'' # rest) = Some (map JString xs, rest)"
    using cons.IH [OF _ k] cons.prems(1) by simp
  then show ?case
    using cons.prems(1) e sk unfolding n j
    by (simp add: parse_value_quote coerce_valid)
qed

lemma marshal_value_head:
  "\<exists>c t. marshal_value p = c # t \<and> \<not> is_space c \<and> c \<noteq> CHR '']''"
proof (cases p)
  case (GoString s)
  then show ?thesis by (simp add: quote_def is_space_def dquote_def)
next
  case (GoInt i)
  obtain x xs where "itoa i = x # xs" "x = CHR ''-'' \<or> is_digit x" using itoa_head by blast
  with GoInt show ?thesis using head_not_structural by auto
next
  case (GoStrings opt)
  then show ?thesis by (cases opt) (simp_all add: is_space_def)
qed

lemma skip_ws_marshal_value [simp]: "skip_ws (marshal_value p @ t) = marshal_value p @ t"
  using marshal_value_head [of p] by (auto simp: skip_ws_def)

lemma length_marshal_value: "0 < length (marshal_value p)"
  using marshal_value_head [of p] by auto

lemma parse_value_marshal:
  assumes "valid_value p" "ends_value c" "length (marshal_value p) \<le> n"
  shows "parse_value n (marshal_value p @ c # r) = Some (to_json p, c # r)"
proof -
  obtain k where n: "n = Suc k"
    using assms(3) length_marshal_value [of p] by (cases n) auto
  show ?thesis
  proof (cases p)
    case (GoString s)
    then show ?thesis
      using assms(1) unfolding n by (simp add: parse_value_quote coerce_valid)
  next
    case (GoInt i)
    then show ?thesis
      using assms(2) unfolding n by (simp add: parse_value_itoa)
  next
    case (GoStrings opt)
    show ?thesis
    proof (cases opt)
      case None
      then show ?thesis
        using GoStrings unfolding n
        by (simp add: parse_value.simps dquote_def is_digit_def in_range_def byte_def scan_literal_def)
    next
      case (Some xs)
      show ?thesis
      proof (cases "xs = []")
        case True
        then show ?thesis
          using GoStrings Some unfolding n
          by (simp add: parse_value.simps skip_ws_def is_space_def)
      next
        case False
        then obtain y ys where xs: "xs = y # ys" by (cases xs) auto
        have sk: "skip_ws (join_comma (map quote xs) @ t) = join_comma (map quote xs) @ t" for t
          by (cases ys) (simp_all add: xs)
        have hd: "take 1 (join_comma (map quote xs) @ t) \<noteq> '']''" for t
          by (cases ys) (simp_all add: xs quote_def dquote_def)
        have len: "length (join_comma (map quote xs)) < k"
          using assms(3) GoStrings Some unfolding n by simp
        have "parse_elems k (join_comma (map quote xs) @ CHR '']'' # c # r) = Some (map JString xs, c # r)"
          using parse_elems_strings [OF False _ len] assms(1) GoStrings Some by simp
        then show ?thesis
          using GoStrings Some sk hd unfolding n by (simp add: parse_value.simps)
      qed
    qed
  qed
qed

lemma parse_elems_params:
  assumes "ps \<noteq> []" "list_all valid_value ps" "length (join_comma (map marshal_value ps)) < n"
  shows "parse_elems n (join_comma (map marshal_value ps) @ CHR '']'' # rest)
           = Some (map to_json ps, rest)"
  using assms
proof (induction ps arbitrary: n rule: list_nonempty_induct)
  case (single p)
  then obtain k where n: "n = Suc k" and k: "length (marshal_value p) \<le> k"
    by (cases n) auto
  have e: "ends_value (CHR '']'')" by (simp add: ends_value_def)
  show ?case
    using single(1) e parse_value_marshal [OF _ e k, of rest] unfolding n
    by simp
next
  case (cons p ps)
  obtain q qs where ps: "ps = q # qs" using cons.hyps(1) by (cases ps) auto
  have j: "join_comma (map marshal_value (p # ps))
             = marshal_value p @ CHR '','' # join_comma (map marshal_value ps)"
    by (simp add: ps)
  from cons.prems(2) obtain k where n: "n = Suc k"
    and k1: "length (marshal_value p) \<le> k"
    and k2: "length (join_comma (map marshal_value ps)) < k"
    unfolding j by (cases n) auto
  have e: "ends_value (CHR '','')" by (simp add: ends_value_def)
  have sk: "skip_ws (join_comma (map marshal_value ps) @ t) = join_comma (map marshal_value ps) @ t" for t
    by (cases qs) (simp_all add: ps)
  have "parse_elems k (join_comma (map marshal_value ps) @ CHR '']'' # rest) = Some (map to_json ps, rest)"
    using cons.IH [OF _ k2] cons.prems(1) by simp
  then show ?case
    using cons.prems(1) e sk parse_value_marshal [OF _ e k1, of "join_comma (map marshal_value ps) @ CHR '']'' # rest"]
    unfolding n j by simp
qed

lemma parse_value_params:
  assumes "list_all valid_value ps" "length (marshal_params ps) \<le> n"
  shows "parse_value n (marshal_params ps @ CHR ''}'' # t)
           = Some (if ps = [] then JNull else JArray (map to_json ps), CHR ''}'' # t)"
proof (cases "ps = []")
  case True
  from assms(2) True obtain k where n: "n = Suc k"
    by (cases n) (auto simp: marshal_params_def)
  show ?thesis
    using True unfolding n
    by (simp add: marshal_params_def parse_value.simps dquote_def is_digit_def in_range_def
          byte_def scan_literal_def)
next
  case False
  then obtain q qs where ps: "ps = q # qs" by (cases ps) auto
  from assms(2) False obtain k where n: "n = Suc k"
    and k: "length (join_comma (map marshal_value ps)) < k"
    by (cases n) (auto simp: marshal_params_def)
  have sk: "skip_ws (join_comma (map marshal_value ps) @ x) = join_comma (map marshal_value ps) @ x" for x
    by (cases qs) (simp_all add: ps)
  have hd: "take 1 (join_comma (map marshal_value ps) @ x) \<noteq> '']''" for x
    using marshal_value_head [of q] by (cases qs) (auto simp: ps)
  have "parse_elems k (join_comma (map marshal_value ps) @ CHR '']'' # CHR ''}'' # t)
          = Some (map to_json ps, CHR ''}'' # t)"
    by (rule parse_elems_params [OF False assms(1) k])
  then show ?thesis
    using False sk hd unfolding n
    by (simp add: marshal_params_def parse_value.simps)
qed

lemma parse_value_request:
  assumes "valid_utf8 (req_Method r)" "list_all valid_value (req_Params r)"
    and "json_marshal_rpcRequest r = Inr body"
    and "length (marshal_params (req_Params r)) \<le> n"
  shows "parse_value (Suc (Suc (Suc (Suc (Suc n))))) (body @ t)
           = Some (JObject [(''id'', JNumber (itoa (req_ID r))),
                            (''jsonrpc'', JString (coerce_utf8 (req_JSONRPC r))),
                            (''method'', JString (req_Method r)),
                            (''params'', if req_Params r = [] then JNull
                                         else JArray (map to_json (req_Params r)))], t)"
proof -
  have e: "ends_value (CHR '','')" "ends_value (CHR ''}'')" by (simp_all add: ends_value_def)
  have body: "body = CHR ''{'' # dquote # ''id'' @ dquote # CHR '':'' # itoa (req_ID r)
      @ CHR '','' # dquote # ''jsonrpc'' @ dquote # CHR '':'' # quote (req_JSONRPC r)
      @ CHR '','' # dquote # ''method'' @ dquote # CHR '':'' # quote (req_Method r)
      @ CHR '','' # dquote # ''params'' @ dquote # CHR '':'' # marshal_params (req_Params r)
      @ ''}''"
    using assms(3) by (auto simp: json_marshal_rpcRequest_def dquote_def)
  have sp: "skip_ws (dquote # x) = dquote # x" "skip_ws (CHR '':'' # x) = CHR '':'' # x" for x
    by (simp_all add: skip_ws_def is_space_def dquote_def)
  have si: "skip_ws (itoa i @ x) = itoa i @ x" for i x
    using skip_ws_marshal_value [of "GoInt i" x] by simp
  have sm: "skip_ws (marshal_params ps @ x) = marshal_params ps @ x" for ps x
    by (simp add: marshal_params_def skip_ws_def is_space_def)
  have dq: "dquote \<noteq> CHR ''{''" "dquote \<noteq> CHR ''}''" "CHR ''}'' \<noteq> dquote"
    by (simp_all add: dquote_def)
  have key: "scan_string (''id'' @ dquote # x) = Some (''id'', x)"
            "scan_string (''jsonrpc'' @ dquote # x) = Some (''jsonrpc'', x)"
            "scan_string (''method'' @ dquote # x) = Some (''method'', x)"
            "scan_string (''params'' @ dquote # x) = Some (''params'', x)" for x
    by (simp_all add: dquote_def backslash_def byte_def)
  have v1: "parse_value (Suc (Suc (Suc n))) (itoa (req_ID r) @ CHR '','' # x)
              = Some (JNumber (itoa (req_ID r)), CHR '','' # x)" for x
    by (rule parse_value_itoa [OF e(1)])
  have v2: "parse_value (Suc k) (quote s @ x) = Some (JString (coerce_utf8 s), x)" for k s x
    by (rule parse_value_quote)
  have v4: "parse_value n (marshal_params (req_Params r) @ CHR ''}'' # t)
              = Some (if req_Params r = [] then JNull else JArray (map to_json (req_Params r)),
                      CHR ''}'' # t)"
    by (rule parse_value_params [OF assms(2,4)])
  show ?thesis
    unfolding body
    apply (subst parse_value.simps(2))
    apply (simp add: sp si sm dq key [unfolded append.simps] v1 v2 v4 e coerce_valid [OF assms(1)]
             del: scan_string.simps)
    done
qed

lemma length_body:
  assumes "json_marshal_rpcRequest r = Inr body"
  shows "length (marshal_params (req_Params r)) + 5 \<le> length body"
    and "skip_ws body = body"
  using assms by (auto simp: json_marshal_rpcRequest_def skip_ws_def is_space_def)

lemma json_parse_request:
  assumes "valid_utf8 (req_Method r)" "list_all valid_value (req_Params r)"
    and "json_marshal_rpcRequest r = Inr body"
  shows "json_parse body
           = Some (JObject [(''id'', JNumber (itoa (req_ID r))),
                            (''jsonrpc'', JString (coerce_utf8 (req_JSONRPC r))),
                            (''method'', JString (req_Method r)),
                            (''params'', if req_Params r = [] then JNull
                                         else JArray (map to_json (req_Params r)))])"
proof -
  let ?n = "length body - 4"
  have n: "Suc (length body) = Suc (Suc (Suc (Suc (Suc ?n))))"
    and b: "length (marshal_params (req_Params r)) \<le> ?n"
    using length_body(1) [OF assms(3)] by simp_all
  show ?thesis
    using parse_value_request [OF assms(1,2,3) b, of "[]"] length_body(2) [OF assms(3)]
    unfolding json_parse_def n
    by (simp add: skip_ws_def)
qed

lemmas utf8_eval = utf8_seq_len_def seq2_def seq3_def seq4_def getu4_def hex_val_def

text \<open>
  A parameter of type \<^verbatim>\<open>int\<close> is written as the decimal literal of its value, and the
  literal reads back as that value.
\<close>

lemma digit_char_value: "d < 10 \<Longrightarrow> byte (digit_char d) - 0x30 = d"
proof -
  assume "d < 10"
  then have "d = 0 \<or> d = 1 \<or> d = 2 \<or> d = 3 \<or> d = 4 \<or> d = 5 \<or> d = 6 \<or> d = 7 \<or> d = 8 \<or> d = 9"
    by arith
  then show ?thesis
    by (elim disjE) (simp_all add: digit_char_def byte_def)
qed

lemma digits_value_digits: "digits_value (digits n) = n"
proof (induction n rule: digits.induct)
  case (1 n)
  show ?case
  proof (cases "n < 10")
    case True
    then show ?thesis
      by (subst digits.simps) (simp add: digits_value_def digit_char_value)
  next
    case False
    then have "digits_value (digits n)
                 = 10 * digits_value (digits (n div 10)) + (byte (digit_char (n mod 10)) - 0x30)"
      by (subst digits.simps) (simp add: digits_value_def)
    with 1 False show ?thesis
      by (simp add: digit_char_value)
  qed
qed

lemma atoi_itoa:
  assumes "- (2 ^ 63) \<le> i" "i < 2 ^ 63"
  shows "atoi (itoa i) = Some i"
proof -
  obtain d ds where d: "digits (nat i) = d # ds"
    using digits_ne [of "nat i"] by (cases "digits (nat i)") auto
  have "is_digit d" using digits_all [of "nat i"] d by simp
  then have dm: "d \<noteq> CHR ''-''" by (auto simp: is_digit_def in_range_def byte_def)
  show ?thesis
  proof (cases "i < 0")
    case True
    then show ?thesis
      using assms digits_ne [of "nat (- i)"] digits_all [of "nat (- i)"]
      by (simp add: atoi_def itoa_def digits_value_digits Let_def)
  next
    case False
    have t: "take 1 (digits (nat i)) \<noteq> ''-''" using d dm by simp
    show ?thesis
      using False assms digits_ne [of "nat i"] digits_all [of "nat i"] t
      by (simp add: atoi_def itoa_def digits_value_digits Let_def)
  qed
qed

text \<open>
  C6 (as stated, false). The claim is that serializing a request and parsing it back yields
  the same method name and parameters for every method name and every parameter list. A Go
  string may hold any bytes, and the encoder replaces a byte that is not well-formed UTF-8
  by U+FFFD: the parameter that is the one byte 0xFF comes back as the three bytes of
  U+FFFD.
\<close>

theorem invalid_utf8_not_preserved:
  "json_marshal_rpcRequest (make_request (NewCCClient ''http://localhost:8080'')
       ''accounts_createAccount'' [GoString [CHR 0xFF]])
     = Inr (''{\"id\":1,\"jsonrpc\":\"2.0\",\"method\":\"accounts_createAccount\",\"params\":[\"''
            @ [CHR 0x5C] @ ''ufffd\"]}'')
 \<and> read_request (''{\"id\":1,\"jsonrpc\":\"2.0\",\"method\":\"accounts_createAccount\",\"params\":[\"''
            @ [CHR 0x5C] @ ''ufffd\"]}'')
     = Some (''accounts_createAccount'', [JString [CHR 0xEF, CHR 0xBF, CHR 0xBD]])
 \<and> map to_json [GoString [CHR 0xFF]] \<noteq> [JString [CHR 0xEF, CHR 0xBF, CHR 0xBD]]"
  by (simp add: read_request_def call_eval json_eval utf8_eval encode_rune_special
        replacement_char_def parse_value.simps digits.simps)

text \<open>
  C6 (amended). For every method name that is well-formed UTF-8 and every list of
  parameters whose strings are well-formed UTF-8, the envelope that \<open>call\<close> builds encodes
  to a body that reads back as the same method name and the same parameters in the same
  order: a string as the same bytes, an \<^verbatim>\<open>int\<close> as the decimal literal of its value, a
  slice of strings as the array of its strings, and a nil slice as \<^verbatim>\<open>null\<close>.
\<close>

theorem request_round_trip:
  assumes "valid_utf8 method" "list_all valid_value params"
  shows "\<exists>body. json_marshal_rpcRequest (make_request rpc method params) = Inr body
            \<and> read_request body = Some (method, map to_json params)"
proof -
  obtain body where b: "json_marshal_rpcRequest (make_request rpc method params) = Inr body"
    using marshal_succeeds by blast
  have "read_request body = Some (method, map to_json params)"
    using json_parse_request [OF _ _ b] assms
    by (simp add: read_request_def make_request_def)
  with b show ?thesis by blast
qed

theorem request_round_trip_witness:
  "valid_utf8 ''service_run''
 \<and> list_all valid_value [GoString ''svc'', GoStrings (Some [''n1'', ''n2'']), GoInt 3]
 \<and> json_marshal_rpcRequest (make_request (NewCCClient ''http://localhost:8080'') ''service_run''
       [GoString ''svc'', GoStrings (Some [''n1'', ''n2'']), GoInt 3])
     = Inr ''{\"id\":1,\"jsonrpc\":\"2.0\",\"method\":\"service_run\",\"params\":[\"svc\",[\"n1\",\"n2\"],3]}''
 \<and> read_request ''{\"id\":1,\"jsonrpc\":\"2.0\",\"method\":\"service_run\",\"params\":[\"svc\",[\"n1\",\"n2\"],3]}''
     = Some (''service_run'', [JString ''svc'', JArray [JString ''n1'', JString ''n2''], JNumber ''3''])"
proof -
  have v: "valid_utf8 ''service_run''"
    "list_all valid_value [GoString ''svc'', GoStrings (Some [''n1'', ''n2'']), GoInt 3]"
    by (simp_all add: byte_def)
  have m: "json_marshal_rpcRequest (make_request (NewCCClient ''http://localhost:8080'') ''service_run''
       [GoString ''svc'', GoStrings (Some [''n1'', ''n2'']), GoInt 3])
     = Inr ''{\"id\":1,\"jsonrpc\":\"2.0\",\"method\":\"service_run\",\"params\":[\"svc\",[\"n1\",\"n2\"],3]}''"
    by (simp add: call_eval byte_def dquote_def backslash_def digits.simps)
  from request_round_trip [OF v, of "NewCCClient ''http://localhost:8080''"] m v
  show ?thesis
    by (simp add: itoa_def digits.simps digit_char_def)
qed

subsection \<open>The bound on the parser's recursion\<close>

text \<open>
  The bound that \<open>json_parse\<close> gives the parser never cuts a parse short: a parse that
  succeeds with any bound succeeds with the length of the text it consumes, hence with the
  bound of \<open>json_parse\<close>. And the members that \<open>top_members\<close> returns are those of the document
  that \<open>json_parse\<close> returns.
\<close>

declare parse_elems.simps(2) [simp del] parse_members.simps(2) [simp del]

lemma fuel_mono_aux:
  "(\<forall>s r m. parse_value n s = Some r \<longrightarrow> n \<le> m \<longrightarrow> parse_value m s = Some r)
 \<and> (\<forall>s r m. parse_elems n s = Some r \<longrightarrow> n \<le> m \<longrightarrow> parse_elems m s = Some r)
 \<and> (\<forall>s r m. parse_members n s = Some r \<longrightarrow> n \<le> m \<longrightarrow> parse_members m s = Some r)"
proof (induction n)
  case 0
  show ?case by simp
next
  case (Suc n)
  then have IHv: "\<And>s r m. parse_value n s = Some r \<Longrightarrow> n \<le> m \<Longrightarrow> parse_value m s = Some r"
    and IHe: "\<And>s r m. parse_elems n s = Some r \<Longrightarrow> n \<le> m \<Longrightarrow> parse_elems m s = Some r"
    and IHm: "\<And>s r m. parse_members n s = Some r \<Longrightarrow> n \<le> m \<Longrightarrow> parse_members m s = Some r"
    by blast+
  have v: "parse_value (Suc m) s = Some r" if A: "parse_value (Suc n) s = Some r" "n \<le> m" for s r m
  proof -
    from A(1) obtain c cs where s: "s = c # cs"
      by (cases s) (auto simp: parse_value.simps)
    show ?thesis
    proof (cases "c = CHR ''{''")
      case True
      show ?thesis
      proof (cases "take 1 (skip_ws cs) = ''}''")
        case True
        with A(1) \<open>c = CHR ''{''\<close> show ?thesis by (simp add: s parse_value.simps)
      next
        case False
        with A(1) True obtain ms rest where
          pm: "parse_members n (skip_ws cs) = Some (ms, rest)"
          by (auto simp: s parse_value.simps split: option.splits)
        from IHm [OF pm A(2)] A(1) pm True False show ?thesis
          by (simp add: s parse_value.simps)
      qed
    next
      case False
      note nb = False
      show ?thesis
      proof (cases "c = CHR ''[''")
        case True
        show ?thesis
        proof (cases "take 1 (skip_ws cs) = '']''")
          case True
          with A(1) nb \<open>c = CHR ''[''\<close> show ?thesis by (simp add: s parse_value.simps)
        next
          case False
          with A(1) True nb obtain vs rest where
            pe: "parse_elems n (skip_ws cs) = Some (vs, rest)"
            by (auto simp: s parse_value.simps split: option.splits)
          from IHe [OF pe A(2)] A(1) pe True False nb show ?thesis
            by (simp add: s parse_value.simps)
        qed
      next
        case False
        with nb have "parse_value (Suc m) s = parse_value (Suc n) s"
          by (simp add: s parse_value.simps)
        with A(1) show ?thesis by simp
      qed
    qed
  qed
  have e: "parse_elems (Suc m) s = Some r" if A: "parse_elems (Suc n) s = Some r" "n \<le> m" for s r m
  proof -
    from A(1) obtain v rest where pv: "parse_value n s = Some (v, rest)"
      by (auto simp: parse_elems.simps split: option.splits)
    note pvm = IHv [OF pv A(2)]
    from A(1) pv obtain c rest' where sk: "skip_ws rest = c # rest'"
      by (auto simp: parse_elems.simps split: list.splits)
    show ?thesis
    proof (cases "c = CHR '',''")
      case True
      with A(1) pv sk obtain vs r'' where pe: "parse_elems n (skip_ws rest') = Some (vs, r'')"
        by (auto simp: parse_elems.simps split: option.splits)
      from IHe [OF pe A(2)] A(1) pv pvm sk True pe show ?thesis
        by (simp add: parse_elems.simps)
    next
      case False
      with A(1) pv pvm sk show ?thesis
        by (simp add: parse_elems.simps)
    qed
  qed
  have b: "parse_members (Suc m) s = Some r" if A: "parse_members (Suc n) s = Some r" "n \<le> m" for s r m
  proof -
    from A(1) obtain q cs where s: "s = q # cs" and q: "q = dquote"
      by (cases s) (auto simp: parse_members.simps split: if_splits)
    from A(1) obtain k r0 where ss: "scan_string cs = Some (k, r0)"
      by (auto simp: s q parse_members.simps split: option.splits)
    from A(1) ss obtain colon r1 where sk: "skip_ws r0 = colon # r1" and col: "colon = CHR '':''"
      by (auto simp: s q parse_members.simps split: list.splits if_splits)
    from A(1) ss sk col obtain v r2 where pv: "parse_value n (skip_ws r1) = Some (v, r2)"
      by (auto simp: s q parse_members.simps split: option.splits)
    note pvm = IHv [OF pv A(2)]
    from A(1) ss sk col pv obtain c r3 where sk2: "skip_ws r2 = c # r3"
      by (auto simp: s q parse_members.simps Let_def split: list.splits)
    show ?thesis
    proof (cases "c = CHR '',''")
      case True
      with A(1) ss sk col pv sk2 obtain ms r4 where
        pm: "parse_members n (skip_ws r3) = Some (ms, r4)"
        by (auto simp: s q parse_members.simps Let_def split: option.splits)
      from IHm [OF pm A(2)] A(1) ss sk col pv pvm sk2 True pm show ?thesis
        by (simp add: s q parse_members.simps Let_def)
    next
      case False
      with A(1) ss sk col pv pvm sk2 show ?thesis
        by (simp add: s q parse_members.simps Let_def)
    qed
  qed
  show ?case
  proof (intro conjI allI impI)
    fix s r m assume "parse_value (Suc n) s = Some r" "Suc n \<le> m"
    then show "parse_value m s = Some r" using v [of s r "m - 1"] by (cases m) auto
  next
    fix s r m assume "parse_elems (Suc n) s = Some r" "Suc n \<le> m"
    then show "parse_elems m s = Some r" using e [of s r "m - 1"] by (cases m) auto
  next
    fix s r m assume "parse_members (Suc n) s = Some r" "Suc n \<le> m"
    then show "parse_members m s = Some r" using b [of s r "m - 1"] by (cases m) auto
  qed
qed

lemma prepend_SomeD: "prepend p q = Some (x, r) \<Longrightarrow> \<exists>y. q = Some (y, r)"
  by (auto simp: prepend_def split: option.splits)

lemma scan_string_shorter: "scan_string s = Some (x, r) \<Longrightarrow> length r < length s"
proof (induction s arbitrary: x r rule: length_induct)
  case (1 s)
  then obtain c cs where s: "s = c # cs" by (cases s) auto
  have IH: "length r' < length t" if "scan_string t = Some (y, r')" "length t \<le> length cs" for t y r'
    using 1(1) that s by auto
  have step: "length r < length s" if "prepend p (scan_string t) = Some (x, r)" "length t \<le> length cs" for p t
  proof -
    from prepend_SomeD [OF that(1)] obtain y where "scan_string t = Some (y, r)" by blast
    from IH [OF this that(2)] that(2) show ?thesis by (simp add: s)
  qed
  show ?case
  proof (cases "c = dquote")
    case True
    with 1(2) show ?thesis by (simp add: s)
  next
    case nq: False
    show ?thesis
    proof (cases "c = backslash")
      case True
      with 1(2) nq obtain e es where cs: "cs = e # es"
        by (cases cs) (auto simp: s)
      show ?thesis
      proof (cases "e = CHR ''u''")
        case True
        from 1(2) nq \<open>c = backslash\<close> True
        have "(\<exists>p. prepend p (scan_string (drop 10 es)) = Some (x, r))
            \<or> (\<exists>p. prepend p (scan_string (drop 4 es)) = Some (x, r))"
          by (auto simp: s cs split: option.splits if_splits)
        then show ?thesis
          using step [of _ "drop 10 es"] step [of _ "drop 4 es"] by (auto simp: cs)
      next
        case False
        from 1(2) nq \<open>c = backslash\<close> False
        have "\<exists>p. prepend p (scan_string es) = Some (x, r)"
          by (auto simp: s cs split: option.splits)
        then show ?thesis using step [of _ es] by (auto simp: cs)
      qed
    next
      case False
      from 1(2) nq False
      have "(\<exists>p. prepend p (scan_string cs) = Some (x, r))
          \<or> (\<exists>p. prepend p (scan_string (drop (utf8_seq_len (c # cs) - 1) cs)) = Some (x, r))"
        by (auto simp: s Let_def split: if_splits)
      then show ?thesis
        using step [of _ cs] step [of _ "drop (utf8_seq_len (c # cs) - 1) cs"] by auto
    qed
  qed
qed

lemma scan_digits_shorter: "scan_digits s = Some (x, r) \<Longrightarrow> length r < length s"
proof -
  assume a: "scan_digits s = Some (x, r)"
  then have "takeWhile is_digit s \<noteq> []" "r = dropWhile is_digit s"
    by (auto simp: scan_digits_def split: if_splits)
  moreover have "length (takeWhile is_digit s) + length (dropWhile is_digit s) = length s"
    by (metis length_append takeWhile_dropWhile_id)
  ultimately show ?thesis by (cases "takeWhile is_digit s") auto
qed

lemma scan_digits_le: "scan_digits s = Some (x, r) \<Longrightarrow> length r \<le> length s"
  using scan_digits_shorter by fastforce

lemma int_part_shorter: "int_part s = Some (x, r) \<Longrightarrow> length r < length s"
  by (cases s) (auto simp: int_part_def split: if_splits dest: scan_digits_shorter)

lemma frac_part_le: "frac_part s = Some (x, r) \<Longrightarrow> length r \<le> length s"
  by (cases s) (auto simp: frac_part_def split: if_splits dest!: prepend_SomeD scan_digits_le)

lemma exp_part_le: "exp_part s = Some (x, r) \<Longrightarrow> length r \<le> length s"
  by (cases s; cases "tl s")
     (auto simp: exp_part_def split: if_splits dest!: prepend_SomeD scan_digits_le)

lemma scan_number_shorter: "scan_number s = Some (x, r) \<Longrightarrow> length r < length s"
proof -
  assume a: "scan_number s = Some (x, r)"
  let ?sign = "case s of c # _ \<Rightarrow> if c = CHR ''-'' then [c] else [] | [] \<Rightarrow> []"
  from a obtain ip s2 fp s3 ep where
    i: "int_part (drop (length ?sign) s) = Some (ip, s2)"
    and f: "frac_part s2 = Some (fp, s3)" and e: "exp_part s3 = Some (ep, r)"
    by (auto simp: scan_number_def Let_def split: option.splits)
  from int_part_shorter [OF i] frac_part_le [OF f] exp_part_le [OF e]
  show ?thesis by simp
qed

lemma scan_literal_shorter: "scan_literal s = Some (x, r) \<Longrightarrow> length r < length s"
  by (cases s) (auto simp: scan_literal_def split: if_splits)

lemma skip_ws_le: "length (skip_ws s) \<le> length s"
  by (simp add: skip_ws_def length_dropWhile_le)

lemma fuel_mono:
  "parse_value n s = Some r \<Longrightarrow> n \<le> m \<Longrightarrow> parse_value m s = Some r"
  "parse_elems n s = Some r' \<Longrightarrow> n \<le> m \<Longrightarrow> parse_elems m s = Some r'"
  "parse_members n s = Some r'' \<Longrightarrow> n \<le> m \<Longrightarrow> parse_members m s = Some r''"
  using fuel_mono_aux [of n] by blast+

lemma skip_ws_cons_shorter: "skip_ws x = c # y \<Longrightarrow> length y < length x"
  using skip_ws_le [of x] by simp

lemma fuel_consumed_aux:
  "(\<forall>s v rest. parse_value n s = Some (v, rest) \<longrightarrow>
      length rest < length s \<and> parse_value (length s - length rest) s = Some (v, rest))
 \<and> (\<forall>s vs rest. parse_elems n s = Some (vs, rest) \<longrightarrow>
      length rest < length s \<and> parse_elems (length s - length rest) s = Some (vs, rest))
 \<and> (\<forall>s ms rest. parse_members n s = Some (ms, rest) \<longrightarrow>
      length rest < length s \<and> parse_members (length s - length rest) s = Some (ms, rest))"
proof (induction n)
  case 0
  show ?case by simp
next
  case (Suc n)
  then have IHv: "\<And>s v rest. parse_value n s = Some (v, rest) \<Longrightarrow>
        length rest < length s \<and> parse_value (length s - length rest) s = Some (v, rest)"
    and IHe: "\<And>s vs rest. parse_elems n s = Some (vs, rest) \<Longrightarrow>
        length rest < length s \<and> parse_elems (length s - length rest) s = Some (vs, rest)"
    and IHm: "\<And>s ms rest. parse_members n s = Some (ms, rest) \<Longrightarrow>
        length rest < length s \<and> parse_members (length s - length rest) s = Some (ms, rest)"
    by blast+
  have v: "length rest < length s \<and> parse_value (length s - length rest) s = Some (v, rest)"
    if A: "parse_value (Suc n) s = Some (v, rest)" for s v rest
  proof -
    from A obtain c cs where s: "s = c # cs"
      by (cases s) (auto simp: parse_value.simps)
    have fin: ?thesis if "length rest < length s" "\<And>k. parse_value (Suc k) s = Some (v, rest)"
    proof -
      from that(1) obtain k where "length s - length rest = Suc k"
        by (cases "length s - length rest") auto
      with that show ?thesis by simp
    qed
    show ?thesis
    proof (cases "c = CHR ''{''")
      case True
      show ?thesis
      proof (cases "take 1 (skip_ws cs) = ''}''")
        case e: True
        with A True have r: "rest = drop 1 (skip_ws cs)" "v = JObject []"
          by (simp_all add: s parse_value.simps)
        have "length rest < length s" using skip_ws_le [of cs] by (simp add: r s)
        then show ?thesis
          using True e r by (intro fin) (simp_all add: s parse_value.simps)
      next
        case False
        with A True obtain ms where
          pm: "parse_members n (skip_ws cs) = Some (ms, rest)"
          and v: "v = JObject (map (\<lambda>(k, v, raw). (k, v)) ms)"
          by (auto simp: s parse_value.simps split: option.splits)
        from IHm [OF pm] have l: "length rest < length (skip_ws cs)"
          and p: "parse_members (length (skip_ws cs) - length rest) (skip_ws cs) = Some (ms, rest)"
          by simp_all
        have l2: "length rest < length cs" using l skip_ws_le [of cs] by simp
        then have f: "length s - length rest = Suc (length cs - length rest)" by (simp add: s)
        have "parse_members (length cs - length rest) (skip_ws cs) = Some (ms, rest)"
          using fuel_mono(3) [OF p] skip_ws_le [of cs] by simp
        then show ?thesis
          using True False v l2 unfolding f by (simp add: s parse_value.simps)
      qed
    next
      case nb: False
      show ?thesis
      proof (cases "c = CHR ''[''")
        case True
        show ?thesis
        proof (cases "take 1 (skip_ws cs) = '']''")
          case e: True
          with A True nb have r: "rest = drop 1 (skip_ws cs)" "v = JArray []"
            by (simp_all add: s parse_value.simps)
          have "length rest < length s" using skip_ws_le [of cs] by (simp add: r s)
          then show ?thesis
            using True e r nb by (intro fin) (simp_all add: s parse_value.simps)
        next
          case False
          with A True nb obtain vs where
            pe: "parse_elems n (skip_ws cs) = Some (vs, rest)" and v: "v = JArray vs"
            by (auto simp: s parse_value.simps split: option.splits)
          from IHe [OF pe] have l: "length rest < length (skip_ws cs)"
            and p: "parse_elems (length (skip_ws cs) - length rest) (skip_ws cs) = Some (vs, rest)"
            by simp_all
          have l2: "length rest < length cs" using l skip_ws_le [of cs] by simp
          then have f: "length s - length rest = Suc (length cs - length rest)" by (simp add: s)
          have "parse_elems (length cs - length rest) (skip_ws cs) = Some (vs, rest)"
            using fuel_mono(2) [OF p] skip_ws_le [of cs] by simp
          then show ?thesis
            using True False nb v l2 unfolding f by (simp add: s parse_value.simps)
        qed
      next
        case False
        have same: "parse_value (Suc k) s = parse_value (Suc n) s" for k
          using nb False by (simp add: s parse_value.simps)
        have "length rest < length s"
          using A nb False scan_string_shorter [of cs _ rest] scan_number_shorter [of s _ rest]
            scan_literal_shorter [of s v rest]
          by (auto simp: s parse_value.simps split: if_splits option.splits)
        then show ?thesis
          using same A by (intro fin) simp_all
      qed
    qed
  qed
  have e: "length rest < length s \<and> parse_elems (length s - length rest) s = Some (vs, rest)"
    if A: "parse_elems (Suc n) s = Some (vs, rest)" for s vs rest
  proof -
    from A obtain v r1 where pv: "parse_value n s = Some (v, r1)"
      by (auto simp: parse_elems.simps split: option.splits)
    from IHv [OF pv] have l1: "length r1 < length s"
      and p1: "parse_value (length s - length r1) s = Some (v, r1)" by simp_all
    from A pv obtain c r' where sk: "skip_ws r1 = c # r'"
      by (auto simp: parse_elems.simps split: list.splits)
    note l2 = skip_ws_cons_shorter [OF sk]
    show ?thesis
    proof (cases "c = CHR '',''")
      case True
      with A pv sk obtain ws where pe: "parse_elems n (skip_ws r') = Some (ws, rest)"
        and vs: "vs = v # ws"
        by (auto simp: parse_elems.simps split: option.splits)
      from IHe [OF pe] have l3: "length rest < length (skip_ws r')"
        and p3: "parse_elems (length (skip_ws r') - length rest) (skip_ws r') = Some (ws, rest)"
        by simp_all
      have l4: "length rest < length r'" using l3 skip_ws_le [of r'] by simp
      obtain k where f: "length s - length rest = Suc k"
        and k1: "length s - length r1 \<le> k" and k2: "length (skip_ws r') - length rest \<le> k"
        using l1 l2 l4 skip_ws_le [of r'] by (cases "length s - length rest") auto
      from fuel_mono(1) [OF p1 k1] fuel_mono(2) [OF p3 k2] sk True vs l1 l2 l4
      show ?thesis unfolding f by (simp add: parse_elems.simps)
    next
      case False
      with A pv sk have r: "c = CHR '']''" "rest = r'" "vs = [v]"
        by (auto simp: parse_elems.simps split: if_splits)
      obtain k where f: "length s - length rest = Suc k" and k1: "length s - length r1 \<le> k"
        using l1 l2 r by (cases "length s - length rest") auto
      from fuel_mono(1) [OF p1 k1] sk r l1 l2
      show ?thesis unfolding f by (simp add: parse_elems.simps)
    qed
  qed
  have b: "length rest < length s \<and> parse_members (length s - length rest) s = Some (ms, rest)"
    if A: "parse_members (Suc n) s = Some (ms, rest)" for s ms rest
  proof -
    from A obtain q cs where s: "s = q # cs" and q: "q = dquote"
      by (cases s) (auto simp: parse_members.simps split: if_splits)
    from A obtain k r0 where ss: "scan_string cs = Some (k, r0)"
      by (auto simp: s q parse_members.simps split: option.splits)
    note l0 = scan_string_shorter [OF ss]
    from A ss obtain colon r1 where sk: "skip_ws r0 = colon # r1" and col: "colon = CHR '':''"
      by (auto simp: s q parse_members.simps split: list.splits if_splits)
    note l1 = skip_ws_cons_shorter [OF sk]
    from A ss sk col obtain v r2 where pv: "parse_value n (skip_ws r1) = Some (v, r2)"
      by (auto simp: s q parse_members.simps split: option.splits)
    from IHv [OF pv] have l2: "length r2 < length (skip_ws r1)"
      and p2: "parse_value (length (skip_ws r1) - length r2) (skip_ws r1) = Some (v, r2)"
      by simp_all
    from A ss sk col pv obtain c r3 where sk2: "skip_ws r2 = c # r3"
      by (auto simp: s q parse_members.simps Let_def split: list.splits)
    note l3 = skip_ws_cons_shorter [OF sk2]
    have l2': "length r2 < length r1" using l2 skip_ws_le [of r1] by simp
    show ?thesis
    proof (cases "c = CHR '',''")
      case True
      with A ss sk col pv sk2 obtain ns where
        pm: "parse_members n (skip_ws r3) = Some (ns, rest)"
        and ms: "ms = (k, v, take (length (skip_ws r1) - length r2) (skip_ws r1)) # ns"
        by (auto simp: s q parse_members.simps Let_def split: option.splits)
      from IHm [OF pm] have l4: "length rest < length (skip_ws r3)"
        and p4: "parse_members (length (skip_ws r3) - length rest) (skip_ws r3) = Some (ns, rest)"
        by simp_all
      have l4': "length rest < length r3" using l4 skip_ws_le [of r3] by simp
      obtain j where f: "length s - length rest = Suc j"
        and j1: "length (skip_ws r1) - length r2 \<le> j"
        and j2: "length (skip_ws r3) - length rest \<le> j"
        using l0 l1 l2' l3 l4' skip_ws_le [of r1] skip_ws_le [of r3]
        by (cases "length s - length rest") (auto simp: s)
      have "length rest < length s" using l0 l1 l2' l3 l4' by (simp add: s)
      with fuel_mono(1) [OF p2 j1] fuel_mono(3) [OF p4 j2] ss sk col sk2 True ms
      show ?thesis unfolding f by (simp add: s q parse_members.simps Let_def)
    next
      case False
      with A ss sk col pv sk2 have r: "c = CHR ''}''" "rest = r3"
        "ms = [(k, v, take (length (skip_ws r1) - length r2) (skip_ws r1))]"
        by (auto simp: s q parse_members.simps Let_def split: if_splits)
      obtain j where f: "length s - length rest = Suc j"
        and j1: "length (skip_ws r1) - length r2 \<le> j"
        using l0 l1 l2' l3 r skip_ws_le [of r1]
        by (cases "length s - length rest") (auto simp: s)
      have "length rest < length s" using l0 l1 l2' l3 r by (simp add: s)
      with fuel_mono(1) [OF p2 j1] ss sk col sk2 r
      show ?thesis unfolding f by (simp add: s q parse_members.simps Let_def)
    qed
  qed
  from v e b show ?case by blast
qed

lemma json_parse_fuel:
  assumes "parse_value n (skip_ws data) = Some (v, rest)"
  shows "parse_value (Suc (length data)) (skip_ws data) = Some (v, rest)"
proof -
  from fuel_consumed_aux [of n] assms
  have "parse_value (length (skip_ws data) - length rest) (skip_ws data) = Some (v, rest)"
    by blast
  then show ?thesis
    by (rule fuel_mono(1)) (use skip_ws_le [of data] in simp)
qed

lemma top_members_json_parse:
  assumes "json_parse data = Some (JObject ms)"
  shows "map (\<lambda>(k, v, raw). (k, v)) (top_members data) = ms"
proof -
  from assms obtain rest where
    pv: "parse_value (Suc (length data)) (skip_ws data) = Some (JObject ms, rest)"
    by (auto simp: json_parse_def split: option.splits if_splits)
  then obtain c cs where s: "skip_ws data = c # cs"
    by (cases "skip_ws data") (auto simp: parse_value.simps)
  have c: "c = CHR ''{''"
  proof (rule ccontr)
    assume "c \<noteq> CHR ''{''"
    with pv show False
      by (auto simp: s parse_value.simps scan_literal_def split: if_splits option.splits)
  qed
  show ?thesis
  proof (cases "take 1 (skip_ws cs) = ''}''")
    case True
    then obtain y where y: "skip_ws cs = CHR ''}'' # y"
      by (cases "skip_ws cs") auto
    have "parse_members (length data) (skip_ws cs) = None"
      by (cases "length data") (simp_all add: y parse_members.simps dquote_def)
    with pv True c show ?thesis
      by (simp add: s parse_value.simps top_members_def)
  next
    case False
    with pv c obtain ms' where "parse_members (length data) (skip_ws cs) = Some (ms', rest)"
      "ms = map (\<lambda>(k, v, raw). (k, v)) ms'"
      by (auto simp: s parse_value.simps split: option.splits)
    with c show ?thesis
      by (simp add: s top_members_def)
  qed
qed

end
